theory Spec2Isabelle
  imports Main
begin

section \<open>Shared Python primitives\<close>

text \<open>
  The three games are Python programs. Exceptions that the grid code can raise are values of
  \<open>error\<close>; a computation that may raise has type \<open>error + 'a\<close>.
\<close>

datatype error = IndexError | AttributeError

text \<open>A \<open>for\<close> loop over a list whose body may raise: the first exception ends the loop.\<close>

fun fold_err :: "('a \<Rightarrow> 's \<Rightarrow> error + 's) \<Rightarrow> 'a list \<Rightarrow> 's \<Rightarrow> error + 's" where
  "fold_err f [] s = Inr s"
| "fold_err f (x # xs) s = (case f x s of Inl e \<Rightarrow> Inl e | Inr s' \<Rightarrow> fold_err f xs s')"

text \<open>
  The module \<open>random\<close> is global state. It is modelled as a stream \<open>raw\<close> of raw draws and
  the index \<open>pos\<close> of the next one. \<open>randbelow n\<close> is CPython's \<open>_randbelow\<close> (a value
  in \<open>[0, n)\<close>), \<open>random.choice(seq)\<close> is \<open>seq[_randbelow(len(seq))]\<close> and
  \<open>random.randint(a, b)\<close> is \<open>a + _randbelow(b - a + 1)\<close>.
\<close>

record rand =
  raw :: "nat \<Rightarrow> nat"
  pos :: nat

definition randbelow :: "nat \<Rightarrow> rand \<Rightarrow> nat \<times> rand" where
  "randbelow n g = (raw g (pos g) mod n, g\<lparr>pos := pos g + 1\<rparr>)"

definition random_choice :: "'a list \<Rightarrow> rand \<Rightarrow> 'a \<times> rand" where
  "random_choice xs g = (case randbelow (length xs) g of (k, g') \<Rightarrow> (xs ! k, g'))"

definition randint :: "int \<Rightarrow> int \<Rightarrow> rand \<Rightarrow> int \<times> rand" where
  "randint a b g = (case randbelow (nat (b - a + 1)) g of (k, g') \<Rightarrow> (a + int k, g'))"

text \<open>
  Python list indexing with an \<open>int\<close>. \<open>py_pos n i\<close> is the position that index \<open>i\<close>
  denotes in a list of length \<open>n\<close>: \<open>i\<close> itself, or \<open>n + i\<close> for a negative \<open>i\<close>;
  there is none outside \<open>[-n, n)\<close>, where Python raises IndexError.
\<close>

definition py_pos :: "nat \<Rightarrow> int \<Rightarrow> nat option" where
  "py_pos n i =
     (if 0 \<le> i \<and> i < int n then Some (nat i)
      else if i < 0 \<and> - int n \<le> i then Some (nat (int n + i))
      else None)"

definition py_index :: "'a list \<Rightarrow> int \<Rightarrow> error + 'a" where
  "py_index xs i = (case py_pos (length xs) i of None \<Rightarrow> Inl IndexError | Some j \<Rightarrow> Inr (xs ! j))"

definition py_store :: "'a list \<Rightarrow> int \<Rightarrow> 'a \<Rightarrow> error + 'a list" where
  "py_store xs i v =
     (case py_pos (length xs) i of None \<Rightarrow> Inl IndexError | Some j \<Rightarrow> Inr (xs[j := v]))"

lemma py_pos_less: "py_pos n i = Some j \<Longrightarrow> j < n"
  by (auto simp: py_pos_def split: if_splits)

lemma py_pos_nat [simp]: "0 \<le> i \<Longrightarrow> i < int n \<Longrightarrow> py_pos n i = Some (nat i)"
  by (simp add: py_pos_def)

text \<open>\<open>g[r][c]\<close> and \<open>g[r][c] = v\<close> for indices produced by \<open>range\<close> (never negative).\<close>

definition cell :: "'a list list \<Rightarrow> nat \<Rightarrow> nat \<Rightarrow> error + 'a" where
  "cell g r c = (if r < length g \<and> c < length (g ! r) then Inr (g ! r ! c) else Inl IndexError)"

definition set_cell :: "'a list list \<Rightarrow> nat \<Rightarrow> nat \<Rightarrow> 'a \<Rightarrow> error + 'a list list" where
  "set_cell g r c v =
     (if r < length g \<and> c < length (g ! r) then Inr (g[r := (g ! r)[c := v]])
      else Inl IndexError)"

text \<open>\<open>g[r][c]\<close> and \<open>g[r][c] = v\<close> for \<open>int\<close> indices that may be negative.\<close>

definition py_cell :: "'a list list \<Rightarrow> int \<Rightarrow> int \<Rightarrow> error + 'a" where
  "py_cell g r c = (case py_index g r of Inl e \<Rightarrow> Inl e | Inr row \<Rightarrow> py_index row c)"

definition py_set_cell :: "'a list list \<Rightarrow> int \<Rightarrow> int \<Rightarrow> 'a \<Rightarrow> error + 'a list list" where
  "py_set_cell g r c v =
     (case py_index g r of Inl e \<Rightarrow> Inl e | Inr row \<Rightarrow>
      case py_store row c v of Inl e \<Rightarrow> Inl e | Inr row' \<Rightarrow> py_store g r row')"

text \<open>
  A Python \<open>set\<close> of coordinates is kept as a duplicate-free list; \<open>add\<close> is \<open>List.insert\<close>.
  No result of the programs depends on the order in which a set is iterated.
\<close>

type_synonym coords = "(nat \<times> nat) list"

section \<open>cute\_number\_crush.py: the run-matching game\<close>

definition TILE_TYPES :: "int list" where
  "TILE_TYPES = [0, 1, 2, 3, 4, 5]"

definition SWAP_ANIM_FRAMES :: nat where
  "SWAP_ANIM_FRAMES = 12"

definition BASE_SCORE_PER_TILE :: int where
  "BASE_SCORE_PER_TILE = 10"

record Tile =
  type :: int
  pop_timer :: int
  falling :: bool

text \<open>The constructor \<open>Tile(type_id)\<close>.\<close>

definition new_Tile :: "int \<Rightarrow> Tile" where
  "new_Tile type_id = \<lparr>type = type_id, pop_timer = 0, falling = False\<rparr>"

record Board =
  rows :: nat
  cols :: nat
  grid :: "Tile option list list"

text \<open>\<open>self.grid[r][c].type\<close>: reading \<open>.type\<close> of \<open>None\<close> raises AttributeError.\<close>

definition type_at :: "Board \<Rightarrow> nat \<Rightarrow> nat \<Rightarrow> error + int" where
  "type_at b r c =
     (case cell (grid b) r c of
        Inl e \<Rightarrow> Inl e
      | Inr None \<Rightarrow> Inl AttributeError
      | Inr (Some t) \<Rightarrow> Inr (type t))"

subsection \<open>Board.get and Board.swap\<close>

definition get :: "Board \<Rightarrow> int \<Rightarrow> int \<Rightarrow> error + Tile option" where
  "get b r c =
     (if 0 \<le> r \<and> r < int (rows b) \<and> 0 \<le> c \<and> c < int (cols b)
      then cell (grid b) (nat r) (nat c)
      else Inr None)"

text \<open>
  \<open>self.grid[r1][c1], self.grid[r2][c2] = self.grid[r2][c2], self.grid[r1][c1]\<close>: both reads
  of the right-hand side happen first, then the two stores from left to right.
\<close>

definition swap :: "Board \<Rightarrow> int \<Rightarrow> int \<Rightarrow> int \<Rightarrow> int \<Rightarrow> error + Board" where
  "swap b r1 c1 r2 c2 =
     (case py_index (grid b) r2 of Inl e \<Rightarrow> Inl e | Inr row2 \<Rightarrow>
      case py_index row2 c2 of Inl e \<Rightarrow> Inl e | Inr v2 \<Rightarrow>
      case py_index (grid b) r1 of Inl e \<Rightarrow> Inl e | Inr row1 \<Rightarrow>
      case py_index row1 c1 of Inl e \<Rightarrow> Inl e | Inr v1 \<Rightarrow>
      case py_store row1 c1 v2 of Inl e \<Rightarrow> Inl e | Inr row1' \<Rightarrow>
      case py_store (grid b) r1 row1' of Inl e \<Rightarrow> Inl e | Inr g1 \<Rightarrow>
      case py_index g1 r2 of Inl e \<Rightarrow> Inl e | Inr row2' \<Rightarrow>
      case py_store row2' c2 v1 of Inl e \<Rightarrow> Inl e | Inr row2'' \<Rightarrow>
      case py_store g1 r2 row2'' of Inl e \<Rightarrow> Inl e | Inr g2 \<Rightarrow>
      Inr (b\<lparr>grid := g2\<rparr>))"

subsection \<open>Board.find\_matches\<close>

text \<open>
  The row scan (lines 115-126) and the column scan (lines 128-139) are the same pair of nested
  \<open>while\<close> loops with the roles of \<open>r\<close> and \<open>c\<close> exchanged. \<open>run_end\<close> is the inner
  loop \<open>while c < n and type(c) == t: c += 1\<close>; \<open>scan_line\<close> is the outer loop
  \<open>while c < n\<close>, where \<open>ty\<close> reads the type at position \<open>c\<close> of the line and \<open>mk\<close>
  builds the coordinate that is added to \<open>to_remove\<close>.
\<close>

function run_end :: "(nat \<Rightarrow> error + int) \<Rightarrow> nat \<Rightarrow> int \<Rightarrow> nat \<Rightarrow> error + nat" where
  "run_end ty n t c =
     (if c < n then
        (case ty c of
           Inl e \<Rightarrow> Inl e
         | Inr t' \<Rightarrow> if t' = t then run_end ty n t (c + 1) else Inr c)
      else Inr c)"
  by pat_completeness auto
termination
  by (relation "measure (\<lambda>(ty, n, t, c). n - c)") auto

lemma run_end_ge: "run_end ty n t c = Inr c' \<Longrightarrow> c \<le> c'"
proof (induction ty n t c rule: run_end.induct)
  case (1 ty n t c)
  show ?case
  proof (cases "c < n")
    case False
    with "1.prems" show ?thesis by simp
  next
    case True
    show ?thesis
    proof (cases "ty c")
      case (Inl e)
      with True "1.prems" show ?thesis by simp
    next
      case (Inr t')
      show ?thesis
      proof (cases "t' = t")
        case True
        with \<open>c < n\<close> Inr "1.prems" have "run_end ty n t (c + 1) = Inr c'" by simp
        with "1.IH" [OF \<open>c < n\<close> Inr True] show ?thesis by simp
      next
        case False
        with \<open>c < n\<close> Inr "1.prems" show ?thesis by simp
      qed
    qed
  qed
qed

lemma run_end_le: "run_end ty n t c = Inr c' \<Longrightarrow> c \<le> n \<Longrightarrow> c' \<le> n"
proof (induction ty n t c rule: run_end.induct)
  case (1 ty n t c)
  show ?case
  proof (cases "c < n")
    case False
    with "1.prems" show ?thesis by simp
  next
    case True
    show ?thesis
    proof (cases "ty c")
      case (Inl e)
      with True "1.prems" show ?thesis by simp
    next
      case (Inr t')
      show ?thesis
      proof (cases "t' = t")
        case True
        with \<open>c < n\<close> Inr "1.prems" have "run_end ty n t (c + 1) = Inr c'" by simp
        with "1.IH" [OF \<open>c < n\<close> Inr True] \<open>c < n\<close> show ?thesis by simp
      next
        case False
        with \<open>c < n\<close> Inr "1.prems" show ?thesis by simp
      qed
    qed
  qed
qed

function scan_line ::
  "(nat \<Rightarrow> error + int) \<Rightarrow> (nat \<Rightarrow> nat \<times> nat) \<Rightarrow> nat \<Rightarrow> nat \<Rightarrow> coords \<Rightarrow> error + coords" where
  "scan_line ty mk n c to_remove =
     (if c < n then
        (case ty c of
           Inl e \<Rightarrow> Inl e
         | Inr t \<Rightarrow>
             (case run_end ty n t (c + 1) of
                Inl e \<Rightarrow> Inl e
              | Inr c' \<Rightarrow>
                  scan_line ty mk n c'
                    (if c' - c \<ge> 3 then fold (\<lambda>cc. List.insert (mk cc)) [c..<c'] to_remove
                     else to_remove)))
      else Inr to_remove)"
  by pat_completeness auto
termination
proof (relation "measure (\<lambda>(ty, mk, n, c, to_remove). n - c)", goal_cases)
  case 1
  show ?case by simp
next
  case (2 ty mk n c to_remove t c')
  from run_end_ge [OF 2(3)] run_end_le [OF 2(3)] 2(1) show ?case by simp
qed

declare run_end.simps [simp del] scan_line.simps [simp del]

definition find_matches :: "Board \<Rightarrow> error + coords" where
  "find_matches b =
     (case fold_err (\<lambda>r. scan_line (\<lambda>c. type_at b r c) (\<lambda>c. (r, c)) (cols b) 0)
             [0..<rows b] [] of
        Inl e \<Rightarrow> Inl e
      | Inr horizontal \<Rightarrow>
          fold_err (\<lambda>c. scan_line (\<lambda>r. type_at b r c) (\<lambda>r. (r, c)) (rows b) 0)
            [0..<cols b] horizontal)"

subsection \<open>Board.remove\_and\_collapse\<close>

text \<open>The first loop: every listed cell that still holds a tile is set to \<open>None\<close> and counted.\<close>

definition mark_cell ::
  "nat \<times> nat \<Rightarrow> Tile option list list \<times> nat \<Rightarrow> error + (Tile option list list \<times> nat)" where
  "mark_cell p s =
     (case p of (r, c) \<Rightarrow> case s of (g, removed) \<Rightarrow>
        case cell g r c of
          Inl e \<Rightarrow> Inl e
        | Inr None \<Rightarrow> Inr (g, removed)
        | Inr (Some t) \<Rightarrow>
            (case set_cell g r c None of
               Inl e \<Rightarrow> Inl e
             | Inr g' \<Rightarrow> Inr (g', removed + 1)))"

definition mark_removed ::
  "Tile option list list \<Rightarrow> coords \<Rightarrow> error + (Tile option list list \<times> nat)" where
  "mark_removed g remove_coords = fold_err mark_cell remove_coords (g, 0)"

text \<open>
  \<open>stack\<close> of column \<open>c\<close>: the tiles met going from the bottom row up
  (\<open>range(rows - 1, -1, -1)\<close> is \<open>rev [0..<rows]\<close>).
\<close>

definition column_stack :: "Tile option list list \<Rightarrow> nat \<Rightarrow> nat \<Rightarrow> error + Tile list" where
  "column_stack g n c =
     fold_err (\<lambda>r stack.
         case cell g r c of
           Inl e \<Rightarrow> Inl e
         | Inr None \<Rightarrow> Inr stack
         | Inr (Some t) \<Rightarrow> Inr (stack @ [t]))
       (rev [0..<n]) []"

text \<open>Fill from the bottom: \<open>stack.pop(0)\<close> while the stack lasts, then new random tiles.\<close>

definition fill_column ::
  "Tile option list list \<Rightarrow> nat \<Rightarrow> nat \<Rightarrow> Tile list \<Rightarrow> rand
     \<Rightarrow> error + (Tile option list list \<times> Tile list \<times> rand)" where
  "fill_column g n c stack rnd =
     fold_err (\<lambda>r (g, stack, rnd).
         case stack of
           t # rest \<Rightarrow>
             (case set_cell g r c (Some t) of
                Inl e \<Rightarrow> Inl e
              | Inr g' \<Rightarrow> Inr (g', rest, rnd))
         | [] \<Rightarrow>
             (case random_choice TILE_TYPES rnd of
                (ty, rnd') \<Rightarrow>
                  (case set_cell g r c (Some (new_Tile ty)) of
                     Inl e \<Rightarrow> Inl e
                   | Inr g' \<Rightarrow> Inr (g', [], rnd'))))
       (rev [0..<n]) (g, stack, rnd)"

definition collapse_column ::
  "nat \<Rightarrow> nat \<Rightarrow> Tile option list list \<times> rand \<Rightarrow> error + (Tile option list list \<times> rand)" where
  "collapse_column n c s =
     (case s of (g, rnd) \<Rightarrow>
        case column_stack g n c of
          Inl e \<Rightarrow> Inl e
        | Inr stack \<Rightarrow>
            (case fill_column g n c stack rnd of
               Inl e \<Rightarrow> Inl e
             | Inr (g', stack', rnd') \<Rightarrow> Inr (g', rnd')))"

text \<open>The second loop of \<open>remove_and_collapse\<close>: \<open>for c in range(self.cols)\<close>.\<close>

definition collapse_columns ::
  "nat \<Rightarrow> nat \<Rightarrow> Tile option list list \<Rightarrow> rand \<Rightarrow> error + (Tile option list list \<times> rand)" where
  "collapse_columns n m g rnd = fold_err (collapse_column n) [0..<m] (g, rnd)"

definition remove_and_collapse :: "Board \<Rightarrow> coords \<Rightarrow> rand \<Rightarrow> error + (nat \<times> Board \<times> rand)" where
  "remove_and_collapse b remove_coords rnd =
     (case mark_removed (grid b) remove_coords of
        Inl e \<Rightarrow> Inl e
      | Inr (g, removed) \<Rightarrow>
          (case collapse_columns (rows b) (cols b) g rnd of
             Inl e \<Rightarrow> Inl e
           | Inr (g', rnd') \<Rightarrow> Inr (removed, b\<lparr>grid := g'\<rparr>, rnd')))"

subsection \<open>Board.\_is\_match\_at, Board.\_remove\_initial\_matches and the constructor\<close>

text \<open>
  The four counting loops of \<open>_is_match_at\<close>: \<open>count_down\<close> walks towards index 0
  (\<open>while cc >= 0 and type(cc) == t\<close>), \<open>count_up\<close> towards the end of the line
  (\<open>while cc < n and type(cc) == t\<close>).
\<close>

function count_down :: "(nat \<Rightarrow> error + int) \<Rightarrow> int \<Rightarrow> int \<Rightarrow> nat \<Rightarrow> error + nat" where
  "count_down ty t cc count =
     (if cc \<ge> 0 then
        (case ty (nat cc) of
           Inl e \<Rightarrow> Inl e
         | Inr t' \<Rightarrow> if t' = t then count_down ty t (cc - 1) (count + 1) else Inr count)
      else Inr count)"
  by pat_completeness auto
termination
  by (relation "measure (\<lambda>(ty, t, cc, count). nat (cc + 1))") auto

function count_up :: "(nat \<Rightarrow> error + int) \<Rightarrow> nat \<Rightarrow> int \<Rightarrow> nat \<Rightarrow> nat \<Rightarrow> error + nat" where
  "count_up ty n t cc count =
     (if cc < n then
        (case ty cc of
           Inl e \<Rightarrow> Inl e
         | Inr t' \<Rightarrow> if t' = t then count_up ty n t (cc + 1) (count + 1) else Inr count)
      else Inr count)"
  by pat_completeness auto
termination
  by (relation "measure (\<lambda>(ty, n, t, cc, count). n - cc)") auto

definition is_match_at :: "Board \<Rightarrow> nat \<Rightarrow> nat \<Rightarrow> error + bool" where
  "is_match_at b r c =
     (case type_at b r c of Inl e \<Rightarrow> Inl e | Inr t \<Rightarrow>
      case count_down (\<lambda>cc. type_at b r cc) t (int c - 1) 1 of Inl e \<Rightarrow> Inl e | Inr count \<Rightarrow>
      case count_up (\<lambda>cc. type_at b r cc) (cols b) t (c + 1) count of Inl e \<Rightarrow> Inl e
      | Inr count \<Rightarrow>
          if count \<ge> 3 then Inr True
          else
            (case count_down (\<lambda>rr. type_at b rr c) t (int r - 1) 1 of Inl e \<Rightarrow> Inl e
             | Inr count \<Rightarrow>
             case count_up (\<lambda>rr. type_at b rr c) (rows b) t (r + 1) count of Inl e \<Rightarrow> Inl e
             | Inr count \<Rightarrow> Inr (count \<ge> 3)))"

text \<open>
  The \<open>while True\<close> loop at one cell: re-roll the tile while it forms a match. Nothing bounds
  the number of re-rolls, so the loop is a partial function: \<open>None\<close> means it never leaves.
\<close>

partial_function (option) reroll_cell ::
  "Board \<Rightarrow> nat \<Rightarrow> nat \<Rightarrow> rand \<Rightarrow> (error + Board \<times> rand) option" where
  "reroll_cell b r c rnd =
     (case is_match_at b r c of
        Inl e \<Rightarrow> Some (Inl e)
      | Inr m \<Rightarrow>
          if m then
            (case random_choice TILE_TYPES rnd of
               (ty, rnd') \<Rightarrow>
                 (case set_cell (grid b) r c (Some (new_Tile ty)) of
                    Inl e \<Rightarrow> Some (Inl e)
                  | Inr g' \<Rightarrow> reroll_cell (b\<lparr>grid := g'\<rparr>) r c rnd'))
          else Some (Inr (b, rnd)))"

text \<open>A \<open>for\<close> loop whose body may raise or may never return.\<close>

fun fold_opt_err ::
  "('a \<Rightarrow> 's \<Rightarrow> (error + 's) option) \<Rightarrow> 'a list \<Rightarrow> 's \<Rightarrow> (error + 's) option" where
  "fold_opt_err f [] s = Some (Inr s)"
| "fold_opt_err f (x # xs) s =
     (case f x s of
        None \<Rightarrow> None
      | Some (Inl e) \<Rightarrow> Some (Inl e)
      | Some (Inr s') \<Rightarrow> fold_opt_err f xs s')"

definition remove_initial_matches :: "Board \<Rightarrow> rand \<Rightarrow> (error + Board \<times> rand) option" where
  "remove_initial_matches b rnd =
     fold_opt_err (\<lambda>r. fold_opt_err (\<lambda>c (b, rnd). reroll_cell b r c rnd) [0..<cols b])
       [0..<rows b] (b, rnd)"

text \<open>The list comprehension of the constructor draws the tiles row by row, left to right.\<close>

fun random_row :: "nat \<Rightarrow> rand \<Rightarrow> Tile option list \<times> rand" where
  "random_row 0 rnd = ([], rnd)"
| "random_row (Suc n) rnd =
     (case random_choice TILE_TYPES rnd of
        (ty, rnd') \<Rightarrow>
          (case random_row n rnd' of (row, rnd'') \<Rightarrow> (Some (new_Tile ty) # row, rnd'')))"

fun random_grid :: "nat \<Rightarrow> nat \<Rightarrow> rand \<Rightarrow> Tile option list list \<times> rand" where
  "random_grid 0 n rnd = ([], rnd)"
| "random_grid (Suc m) n rnd =
     (case random_row n rnd of
        (row, rnd') \<Rightarrow> (case random_grid m n rnd' of (g, rnd'') \<Rightarrow> (row # g, rnd'')))"

definition Board_init :: "nat \<Rightarrow> nat \<Rightarrow> rand \<Rightarrow> (error + Board \<times> rand) option" where
  "Board_init rows_arg cols_arg rnd =
     (case random_grid rows_arg cols_arg rnd of
        (g, rnd') \<Rightarrow> remove_initial_matches \<lparr>rows = rows_arg, cols = cols_arg, grid = g\<rparr> rnd')"

subsection \<open>CandyLikeGame.try\_swap\<close>

text \<open>
  The dictionary \<open>swap_animation\<close>. Its entry \<open>progress\<close> is always \<open>frame / frames\<close> and
  is only read by the drawing code, so it is not kept.
\<close>

record swap_anim =
  sa_a :: "int \<times> int"
  sa_b :: "int \<times> int"
  sa_tile_a :: Tile
  sa_tile_b :: Tile
  sa_frames :: nat
  sa_frame :: nat
  sa_reverting :: bool
  sa_keep :: bool

text \<open>The fields of \<open>CandyLikeGame\<close> that the game logic reads or writes.\<close>

record CandyLikeGame =
  board :: Board
  selected :: "(int \<times> int) option"
  animating :: bool
  swap_animation :: "swap_anim option"
  score :: int
  combo :: int
  paused :: bool
  show_instructions :: bool

text \<open>
  \<open>try_swap\<close> returns \<open>None\<close> on every path; what it did is visible in the game state
  (an accepted request sets \<open>swap_animation\<close> and \<open>animating\<close>).
\<close>

definition try_swap :: "CandyLikeGame \<Rightarrow> int \<times> int \<Rightarrow> int \<times> int \<Rightarrow> error + CandyLikeGame" where
  "try_swap g a b =
     (if animating g then Inr g
      else case a of (r1, c1) \<Rightarrow> case b of (r2, c2) \<Rightarrow>
        if \<bar>r1 - r2\<bar> + \<bar>c1 - c2\<bar> \<noteq> 1 then Inr g
        else case get (board g) r1 c1 of Inl e \<Rightarrow> Inl e | Inr tile_a \<Rightarrow>
             case get (board g) r2 c2 of Inl e \<Rightarrow> Inl e | Inr tile_b \<Rightarrow>
               (case tile_a of None \<Rightarrow> Inr g | Some ta \<Rightarrow>
                case tile_b of None \<Rightarrow> Inr g | Some tb \<Rightarrow>
                  Inr (g\<lparr>swap_animation := Some \<lparr>sa_a = (r1, c1), sa_b = (r2, c2),
                                                 sa_tile_a = ta, sa_tile_b = tb,
                                                 sa_frames = SWAP_ANIM_FRAMES, sa_frame = 0,
                                                 sa_reverting = False, sa_keep = False\<rparr>,
                         animating := True\<rparr>)))"

subsection \<open>The cascade loops of CandyLikeGame\<close>

text \<open>
  \<open>resolve_all_matches_initial\<close> and \<open>find_and_resolve_matches\<close> are \<open>while True\<close>
  loops that leave only when a scan finds no match; no counter bounds them. They are partial
  functions: \<open>None\<close> means the loop never leaves.
\<close>

partial_function (option) resolve_all_matches_initial ::
  "CandyLikeGame \<Rightarrow> rand \<Rightarrow> (error + CandyLikeGame \<times> rand) option" where
  "resolve_all_matches_initial g rnd =
     (case find_matches (board g) of
        Inl e \<Rightarrow> Some (Inl e)
      | Inr matches \<Rightarrow>
          if matches = [] then Some (Inr (g, rnd))
          else
            (case remove_and_collapse (board g) matches rnd of
               Inl e \<Rightarrow> Some (Inl e)
             | Inr (removed, b', rnd') \<Rightarrow> resolve_all_matches_initial (g\<lparr>board := b'\<rparr>) rnd'))"

text \<open>
  The loop of \<open>find_and_resolve_matches\<close>, with its locals \<open>total_removed\<close> and \<open>chain\<close>
  as arguments.
\<close>

partial_function (option) resolve_loop ::
  "CandyLikeGame \<Rightarrow> rand \<Rightarrow> nat \<Rightarrow> nat \<Rightarrow> (error + nat \<times> CandyLikeGame \<times> rand) option" where
  "resolve_loop g rnd total_removed chain =
     (case find_matches (board g) of
        Inl e \<Rightarrow> Some (Inl e)
      | Inr matches \<Rightarrow>
          if matches = [] then Some (Inr (total_removed, g, rnd))
          else
            (case remove_and_collapse (board g) matches rnd of
               Inl e \<Rightarrow> Some (Inl e)
             | Inr (removed, b', rnd') \<Rightarrow>
                 resolve_loop
                   (g\<lparr>board := b',
                      score := score g + int removed * BASE_SCORE_PER_TILE * int (chain + 1)\<rparr>)
                   rnd' (total_removed + removed) (chain + 1)))"

definition find_and_resolve_matches ::
  "CandyLikeGame \<Rightarrow> rand \<Rightarrow> (error + nat \<times> CandyLikeGame \<times> rand) option" where
  "find_and_resolve_matches g rnd = resolve_loop g rnd 0 0"

subsection \<open>CandyLikeGame.update\_swap\_anim and the frame update of the main loop\<close>

definition update_swap_anim ::
  "CandyLikeGame \<Rightarrow> rand \<Rightarrow> (error + CandyLikeGame \<times> rand) option" where
  "update_swap_anim g rnd =
     (case swap_animation g of
        None \<Rightarrow> Some (Inr (g, rnd))
      | Some sa0 \<Rightarrow>
          let sa = sa0\<lparr>sa_frame := sa_frame sa0 + 1\<rparr> in
          if sa_frame sa \<ge> sa_frames sa then
            (case sa_a sa of (r1, c1) \<Rightarrow> case sa_b sa of (r2, c2) \<Rightarrow>
               case swap (board g) r1 c1 r2 c2 of
                 Inl e \<Rightarrow> Some (Inl e)
               | Inr b1 \<Rightarrow>
                   (case find_matches b1 of
                      Inl e \<Rightarrow> Some (Inl e)
                    | Inr matches \<Rightarrow>
                        if matches \<noteq> [] then
                          (case find_and_resolve_matches
                                  (g\<lparr>board := b1, animating := False, swap_animation := None\<rparr>)
                                  rnd of
                             None \<Rightarrow> None
                           | Some (Inl e) \<Rightarrow> Some (Inl e)
                           | Some (Inr (removed, g', rnd')) \<Rightarrow>
                               Some (Inr (if removed \<noteq> 0 then g'\<lparr>combo := combo g' + 1\<rparr>
                                          else g'\<lparr>combo := 0\<rparr>, rnd')))
                        else if \<not> sa_reverting sa then
                          Some (Inr (g\<lparr>board := b1,
                                       swap_animation :=
                                         Some (sa\<lparr>sa_reverting := True, sa_frame := 0\<rparr>)\<rparr>, rnd))
                        else
                          (case swap b1 r1 c1 r2 c2 of
                             Inl e \<Rightarrow> Some (Inl e)
                           | Inr b2 \<Rightarrow>
                               Some (Inr (g\<lparr>board := b2, animating := False,
                                            swap_animation := None\<rparr>, rnd)))))
          else Some (Inr (g\<lparr>swap_animation := Some sa\<rparr>, rnd)))"

text \<open>
  One pass of the main loop without its events and its drawing (lines 504-519): advance the
  swap animation, then, when nothing is animating, clear one round of matches.
\<close>

definition leftover_matches ::
  "CandyLikeGame \<Rightarrow> rand \<Rightarrow> (error + CandyLikeGame \<times> rand) option" where
  "leftover_matches g rnd =
     (if \<not> animating g \<and> swap_animation g = None then
        (case find_matches (board g) of
           Inl e \<Rightarrow> Some (Inl e)
         | Inr matches \<Rightarrow>
             if matches \<noteq> [] then
               (case remove_and_collapse (board g) matches rnd of
                  Inl e \<Rightarrow> Some (Inl e)
                | Inr (removed, b', rnd') \<Rightarrow>
                    Some (Inr (if removed \<noteq> 0
                               then g\<lparr>board := b', combo := combo g + 1,
                                      score := score g + int removed * BASE_SCORE_PER_TILE
                                                 * max 1 (combo g + 1)\<rparr>
                               else g\<lparr>board := b', combo := 0\<rparr>, rnd')))
             else Some (Inr (g, rnd)))
      else Some (Inr (g, rnd)))"

definition frame_update ::
  "CandyLikeGame \<Rightarrow> rand \<Rightarrow> (error + CandyLikeGame \<times> rand) option" where
  "frame_update g rnd =
     (if paused g then Some (Inr (g, rnd))
      else
        (case (if swap_animation g \<noteq> None then update_swap_anim g rnd else Some (Inr (g, rnd))) of
           None \<Rightarrow> None
         | Some (Inl e) \<Rightarrow> Some (Inl e)
         | Some (Inr (g', rnd')) \<Rightarrow> leftover_matches g' rnd'))"

text \<open>\<open>n\<close> consecutive passes of the main loop.\<close>

fun frames_run :: "nat \<Rightarrow> CandyLikeGame \<Rightarrow> rand \<Rightarrow> (error + CandyLikeGame \<times> rand) option" where
  "frames_run 0 g rnd = Some (Inr (g, rnd))"
| "frames_run (Suc n) g rnd =
     (case frame_update g rnd of
        None \<Rightarrow> None
      | Some (Inl e) \<Rightarrow> Some (Inl e)
      | Some (Inr (g', rnd')) \<Rightarrow> frames_run n g' rnd')"

section \<open>The connectivity scan shared by number\_smash.py and number\_stack.py\<close>

text \<open>
  \<open>flood_group\<close> and \<open>find_group\<close> run the same breadth-first loop over a grid of optional
  numbers, with a matrix \<open>visited\<close>, a queue \<open>q\<close> and the list \<open>group\<close> (here \<open>grp\<close>). Coordinates are
  Python ints: a neighbour of a border cell has a coordinate \<open>-1\<close>, which \<open>in_bounds\<close>
  refuses before any list is indexed.
\<close>

type_synonym bfs_state = "bool list list \<times> (int \<times> int) list \<times> (int \<times> int) list"

definition in_bounds :: "nat \<Rightarrow> nat \<Rightarrow> int \<Rightarrow> int \<Rightarrow> bool" where
  "in_bounds n m r c = (0 \<le> r \<and> r < int n \<and> 0 \<le> c \<and> c < int m)"

text \<open>The body of \<open>for dr, dc in ...\<close> for one direction.\<close>

definition visit ::
  "nat \<Rightarrow> nat \<Rightarrow> int option list list \<Rightarrow> int option \<Rightarrow> int \<Rightarrow> int \<Rightarrow> int \<times> int
     \<Rightarrow> bfs_state \<Rightarrow> error + bfs_state" where
  "visit n m g target r c d s =
     (case d of (dr, dc) \<Rightarrow> case s of (visited, q, grp) \<Rightarrow>
        let nr = r + dr; nc = c + dc in
        if in_bounds n m nr nc then
          (case py_cell visited nr nc of
             Inl e \<Rightarrow> Inl e
           | Inr seen \<Rightarrow>
               if \<not> seen then
                 (case py_cell g nr nc of
                    Inl e \<Rightarrow> Inl e
                  | Inr v \<Rightarrow>
                      if v = target then
                        (case py_set_cell visited nr nc True of
                           Inl e \<Rightarrow> Inl e
                         | Inr visited' \<Rightarrow> Inr (visited', q @ [(nr, nc)], grp @ [(nr, nc)]))
                      else Inr s)
               else Inr s)
        else Inr s)"

definition directions :: "(int \<times> int) list" where
  "directions = [(1, 0), (-1, 0), (0, 1), (0, -1)]"

definition visit_neighbours ::
  "nat \<Rightarrow> nat \<Rightarrow> int option list list \<Rightarrow> int option \<Rightarrow> int \<Rightarrow> int
     \<Rightarrow> bfs_state \<Rightarrow> error + bfs_state" where
  "visit_neighbours n m g target r c s = fold_err (visit n m g target r c) directions s"

text \<open>The number of cells of \<open>visited\<close> that are still \<open>False\<close>; it bounds the loop.\<close>

definition unvisited :: "bool list list \<Rightarrow> nat" where
  "unvisited visited = sum_list (map (\<lambda>row. length (filter (\<lambda>x. \<not> x) row)) visited)"

lemma py_index_Inr:
  assumes "py_index xs i = Inr x"
  shows "\<exists>j < length xs. x = xs ! j \<and> (\<forall>v. py_store xs i v = Inr (xs[j := v]))"
proof -
  from assms obtain j where j: "py_pos (length xs) i = Some j" and x: "x = xs ! j"
    by (auto simp: py_index_def split: option.splits)
  from py_pos_less [OF j] j x show ?thesis by (auto simp: py_store_def)
qed

lemma unvisited_row_update:
  "j < length row \<Longrightarrow> \<not> row ! j
    \<Longrightarrow> length (filter (\<lambda>x. \<not> x) (row[j := True])) + 1 = length (filter (\<lambda>x. \<not> x) row)"
proof (induction row arbitrary: j)
  case Nil
  then show ?case by simp
next
  case (Cons x row)
  then show ?case by (cases j) auto
qed

lemma unvisited_update:
  "i < length visited \<Longrightarrow> j < length (visited ! i) \<Longrightarrow> \<not> visited ! i ! j
    \<Longrightarrow> unvisited (visited[i := (visited ! i)[j := True]]) + 1 = unvisited visited"
proof (induction visited arbitrary: i)
  case Nil
  then show ?case by simp
next
  case (Cons row visited)
  show ?case
  proof (cases i)
    case 0
    with Cons.prems unvisited_row_update [of j row] show ?thesis
      by (simp add: unvisited_def)
  next
    case (Suc k)
    with Cons.prems Cons.IH [of k] show ?thesis
      by (simp add: unvisited_def)
  qed
qed

lemma py_set_cell_unvisited:
  assumes "py_cell visited r c = Inr False" "py_set_cell visited r c True = Inr visited'"
  shows "unvisited visited' + 1 = unvisited visited"
proof -
  from assms(1) obtain row where row: "py_index visited r = Inr row" "py_index row c = Inr False"
    by (auto simp: py_cell_def split: sum.splits)
  from py_index_Inr [OF row(1)] obtain i where
    i: "i < length visited" "row = visited ! i"
       "\<forall>v. py_store visited r v = Inr (visited[i := v])"
    by blast
  from py_index_Inr [OF row(2)] obtain j where
    j: "j < length row" "False = row ! j" "\<forall>v. py_store row c v = Inr (row[j := v])"
    by blast
  from assms(2) row(1) j(3) i(3) have "visited' = visited[i := row[j := True]]"
    by (simp add: py_set_cell_def)
  moreover from i(2) j(1,2) have "j < length (visited ! i)" "\<not> visited ! i ! j" by simp_all
  ultimately show ?thesis using unvisited_update [of i visited j] i(1,2) by simp
qed

lemma visit_measure:
  assumes "visit n m g target r c d (visited, q, grp) = Inr (visited', q', grp')"
  shows "2 * unvisited visited' + length q' \<le> 2 * unvisited visited + length q"
proof (cases "(visited', q', grp') = (visited, q, grp)")
  case True
  then show ?thesis by simp
next
  case False
  obtain dr dc where d: "d = (dr, dc)" by (cases d)
  from assms False d have
    "py_cell visited (r + dr) (c + dc) = Inr False
      \<and> py_set_cell visited (r + dr) (c + dc) True = Inr visited'
      \<and> q' = q @ [(r + dr, c + dc)]"
    by (auto simp: visit_def Let_def split: if_splits sum.splits)
  with py_set_cell_unvisited [of visited "r + dr" "c + dc" visited'] show ?thesis by simp
qed

lemma fold_visit_measure:
  "fold_err (visit n m g target r c) ds (visited, q, grp) = Inr (visited', q', grp')
    \<Longrightarrow> 2 * unvisited visited' + length q' \<le> 2 * unvisited visited + length q"
proof (induction ds arbitrary: visited q grp)
  case Nil
  then show ?case by simp
next
  case (Cons d ds)
  from Cons.prems obtain v1 q1 g1 where
    s1: "visit n m g target r c d (visited, q, grp) = Inr (v1, q1, g1)" and
    rest: "fold_err (visit n m g target r c) ds (v1, q1, g1) = Inr (visited', q', grp')"
    by (auto split: sum.splits)
  from visit_measure [OF s1] Cons.IH [OF rest] show ?case by simp
qed

text \<open>The loop \<open>while q: r, c = q.popleft(); for dr, dc in ...\<close>.\<close>

function bfs_loop ::
  "nat \<Rightarrow> nat \<Rightarrow> int option list list \<Rightarrow> int option \<Rightarrow> bfs_state \<Rightarrow> error + (int \<times> int) list" where
  "bfs_loop n m g target (visited, [], grp) = Inr grp"
| "bfs_loop n m g target (visited, (r, c) # q, grp) =
     (case visit_neighbours n m g target r c (visited, q, grp) of
        Inl e \<Rightarrow> Inl e
      | Inr s' \<Rightarrow> bfs_loop n m g target s')"
  by pat_completeness auto
termination
proof (relation "measure (\<lambda>(n, m, g, target, visited, q, grp). 2 * unvisited visited + length q)",
    goal_cases)
  case 1
  show ?case by simp
next
  case (2 n m g target visited r c q grp s')
  obtain v' q' g' where s': "s' = (v', q', g')" by (cases s')
  from 2 s' fold_visit_measure [of n m g target r c directions visited q grp v' q' g']
  show ?case by (simp add: visit_neighbours_def)
qed

text \<open>
  The common part of both scans after the test on the seed's value: \<open>visited\<close> is all
  \<open>False\<close>, the seed is marked, queued and put in \<open>grp\<close>, then the loop runs.
\<close>

definition bfs ::
  "nat \<Rightarrow> nat \<Rightarrow> int option list list \<Rightarrow> int option \<Rightarrow> int \<Rightarrow> int \<Rightarrow> error + (int \<times> int) list" where
  "bfs n m g target start_r start_c =
     (case py_set_cell (replicate n (replicate m False)) start_r start_c True of
        Inl e \<Rightarrow> Inl e
      | Inr visited \<Rightarrow>
          bfs_loop n m g target (visited, [(start_r, start_c)], [(start_r, start_c)]))"

section \<open>number\_smash.py\<close>

text \<open>
  A \<open>Cell\<close> is kept as its \<open>value\<close> (a number, or \<open>None\<close> once smashed); its animation
  timers and the game's \<open>message\<close> are read by the drawing code only.
\<close>

record NumberSmashGame =
  ns_rows :: nat
  ns_cols :: nat
  ns_grid :: "int option list list"
  ns_score :: int

definition flood_group :: "NumberSmashGame \<Rightarrow> int \<Rightarrow> int \<Rightarrow> error + (int \<times> int) list" where
  "flood_group gm start_r start_c =
     (case py_cell (ns_grid gm) start_r start_c of
        Inl e \<Rightarrow> Inl e
      | Inr target \<Rightarrow>
          if target = None then Inr []
          else bfs (ns_rows gm) (ns_cols gm) (ns_grid gm) target start_r start_c)"

text \<open>\<open>for (gr, gc) in group: self.grid[gr][gc].value = None\<close>.\<close>

definition clear_group ::
  "int option list list \<Rightarrow> (int \<times> int) list \<Rightarrow> error + int option list list" where
  "clear_group g grp = fold_err (\<lambda>(gr, gc) g. py_set_cell g gr gc None) grp g"

text \<open>The three loops of \<open>apply_gravity\<close> for one column \<open>c\<close>.\<close>

definition ns_column_stack :: "int option list list \<Rightarrow> nat \<Rightarrow> nat \<Rightarrow> error + int list" where
  "ns_column_stack g n c =
     fold_err (\<lambda>r stack.
         case cell g r c of
           Inl e \<Rightarrow> Inl e
         | Inr None \<Rightarrow> Inr stack
         | Inr (Some val) \<Rightarrow> Inr (stack @ [val]))
       [0..<n] []"

definition place_stack ::
  "int option list list \<Rightarrow> nat \<Rightarrow> nat \<Rightarrow> int list \<Rightarrow> error + (int option list list \<times> int)" where
  "place_stack g n c stack =
     fold_err (\<lambda>val (g, rptr).
         case py_set_cell g rptr (int c) (Some val) of
           Inl e \<Rightarrow> Inl e
         | Inr g' \<Rightarrow> Inr (g', rptr - 1))
       (rev stack) (g, int n - 1)"

function refill_top ::
  "int option list list \<Rightarrow> nat \<Rightarrow> int \<Rightarrow> rand \<Rightarrow> error + (int option list list \<times> rand)" where
  "refill_top g c rptr rnd =
     (if rptr \<ge> 0 then
        (case randint 0 9 rnd of
           (val, rnd') \<Rightarrow>
             (case py_set_cell g rptr (int c) (Some val) of
                Inl e \<Rightarrow> Inl e
              | Inr g' \<Rightarrow> refill_top g' c (rptr - 1) rnd'))
      else Inr (g, rnd))"
  by pat_completeness auto
termination
  by (relation "measure (\<lambda>(g, c, rptr, rnd). nat (rptr + 1))") auto

definition ns_gravity_column ::
  "nat \<Rightarrow> nat \<Rightarrow> int option list list \<times> rand \<Rightarrow> error + (int option list list \<times> rand)" where
  "ns_gravity_column n c s =
     (case s of (g, rnd) \<Rightarrow>
        case ns_column_stack g n c of
          Inl e \<Rightarrow> Inl e
        | Inr stack \<Rightarrow>
            (case place_stack g n c stack of
               Inl e \<Rightarrow> Inl e
             | Inr (g', rptr) \<Rightarrow> refill_top g' c rptr rnd))"

definition ns_apply_gravity ::
  "NumberSmashGame \<Rightarrow> rand \<Rightarrow> error + (NumberSmashGame \<times> rand)" where
  "ns_apply_gravity gm rnd =
     (case fold_err (ns_gravity_column (ns_rows gm)) [0..<ns_cols gm] (ns_grid gm, rnd) of
        Inl e \<Rightarrow> Inl e
      | Inr (g', rnd') \<Rightarrow> Inr (gm\<lparr>ns_grid := g'\<rparr>, rnd'))"

text \<open>\<open>smash_at\<close> returns \<open>True\<close> when the smash was done and \<open>False\<close> when it was refused.\<close>

definition smash_at ::
  "NumberSmashGame \<Rightarrow> int \<Rightarrow> int \<Rightarrow> rand \<Rightarrow> error + (bool \<times> NumberSmashGame \<times> rand)" where
  "smash_at gm r c rnd =
     (case py_cell (ns_grid gm) r c of
        Inl e \<Rightarrow> Inl e
      | Inr None \<Rightarrow> Inr (False, gm, rnd)
      | Inr (Some val) \<Rightarrow>
          if val \<noteq> 0 \<and> val \<noteq> 1 then Inr (False, gm, rnd)
          else
            (case flood_group gm r c of
               Inl e \<Rightarrow> Inl e
             | Inr grp \<Rightarrow>
                 if length grp < 2 then Inr (False, gm, rnd)
                 else
                   (case clear_group (ns_grid gm) grp of
                      Inl e \<Rightarrow> Inl e
                    | Inr g1 \<Rightarrow>
                        (case ns_apply_gravity (gm\<lparr>ns_grid := g1\<rparr>) rnd of
                           Inl e \<Rightarrow> Inl e
                         | Inr (gm', rnd') \<Rightarrow>
                             Inr (True,
                                  gm'\<lparr>ns_score := ns_score gm' + int (length grp) * (val + 1)\<rparr>,
                                  rnd')))))"

section \<open>number\_stack.py\<close>

text \<open>The module constants \<open>ROWS, COLS = 10, 7\<close> of number\_stack.py.\<close>

definition STACK_ROWS :: nat where
  "STACK_ROWS = 10"

definition STACK_COLS :: nat where
  "STACK_COLS = 7"

text \<open>The grid holds numbers or \<open>None\<close> for an empty cell. The falling number is not modelled.\<close>

record NumberStack =
  st_grid :: "int option list list"
  st_score :: int

definition find_group :: "NumberStack \<Rightarrow> int \<Rightarrow> int \<Rightarrow> error + (int \<times> int) list" where
  "find_group st start_r start_c =
     (case py_cell (st_grid st) start_r start_c of
        Inl e \<Rightarrow> Inl e
      | Inr target \<Rightarrow>
          if target \<noteq> Some 0 \<and> target \<noteq> Some 1 then Inr []
          else bfs STACK_ROWS STACK_COLS (st_grid st) target start_r start_c)"

text \<open>
  \<open>apply_gravity\<close> for one column: \<open>stack\<close> lists the numbers from the top row down, and
  \<open>stack.pop()\<close> takes the last one; a cell for which the stack is empty is set to \<open>None\<close>.
\<close>

definition st_column_stack :: "int option list list \<Rightarrow> nat \<Rightarrow> nat \<Rightarrow> error + int list" where
  "st_column_stack g n c =
     fold_err (\<lambda>r stack.
         case cell g r c of
           Inl e \<Rightarrow> Inl e
         | Inr None \<Rightarrow> Inr stack
         | Inr (Some val) \<Rightarrow> Inr (stack @ [val]))
       [0..<n] []"

definition st_fill_column ::
  "int option list list \<Rightarrow> nat \<Rightarrow> nat \<Rightarrow> int list \<Rightarrow> error + (int option list list \<times> int list)" where
  "st_fill_column g n c stack =
     fold_err (\<lambda>r (g, stack).
         if stack \<noteq> [] then
           (case set_cell g r c (Some (last stack)) of
              Inl e \<Rightarrow> Inl e
            | Inr g' \<Rightarrow> Inr (g', butlast stack))
         else
           (case set_cell g r c None of
              Inl e \<Rightarrow> Inl e
            | Inr g' \<Rightarrow> Inr (g', stack)))
       (rev [0..<n]) (g, stack)"

definition st_gravity_column ::
  "nat \<Rightarrow> nat \<Rightarrow> int option list list \<Rightarrow> error + int option list list" where
  "st_gravity_column n c g =
     (case st_column_stack g n c of
        Inl e \<Rightarrow> Inl e
      | Inr stack \<Rightarrow>
          (case st_fill_column g n c stack of
             Inl e \<Rightarrow> Inl e
           | Inr (g', stack') \<Rightarrow> Inr g'))"

definition st_apply_gravity :: "NumberStack \<Rightarrow> error + NumberStack" where
  "st_apply_gravity st =
     (case fold_err (st_gravity_column STACK_ROWS) [0..<STACK_COLS] (st_grid st) of
        Inl e \<Rightarrow> Inl e
      | Inr g' \<Rightarrow> Inr (st\<lparr>st_grid := g'\<rparr>))"

text \<open>\<open>smash\<close> returns \<open>None\<close> on every path; a refused smash leaves the state as it was.\<close>

definition smash :: "NumberStack \<Rightarrow> int \<Rightarrow> int \<Rightarrow> error + NumberStack" where
  "smash st r c =
     (case py_cell (st_grid st) r c of
        Inl e \<Rightarrow> Inl e
      | Inr v \<Rightarrow>
          if v \<noteq> Some 0 \<and> v \<noteq> Some 1 then Inr st
          else
            (case find_group st r c of
               Inl e \<Rightarrow> Inl e
             | Inr grp \<Rightarrow>
                 if length grp < 2 then Inr st
                 else
                   (case clear_group (st_grid st) grp of
                      Inl e \<Rightarrow> Inl e
                    | Inr g1 \<Rightarrow>
                        st_apply_gravity
                          (st\<lparr>st_grid := g1, st_score := st_score st + int (length grp) * 10\<rparr>))))"

section \<open>Specification predicates\<close>

text \<open>
  A grid is well formed when it has \<open>n\<close> rows of \<open>m\<close> cells each; a board is full when its
  grid has the dimensions the board records and every cell holds a tile. This is the state in
  which the constructor and \<open>remove_and_collapse\<close> leave a board.
\<close>

definition wf_grid :: "nat \<Rightarrow> nat \<Rightarrow> 'a list list \<Rightarrow> bool" where
  "wf_grid n m g = (length g = n \<and> (\<forall>row \<in> set g. length row = m))"

definition full_board :: "Board \<Rightarrow> bool" where
  "full_board b =
     (wf_grid (rows b) (cols b) (grid b) \<and> (\<forall>row \<in> set (grid b). \<forall>x \<in> set row. x \<noteq> None))"

text \<open>
  Column \<open>c\<close> of a grid from the top row down, and the values of the non-empty cells of a
  column in their order.
\<close>

definition column :: "'a list list \<Rightarrow> nat \<Rightarrow> 'a list" where
  "column g c = map (\<lambda>row. row ! c) g"

definition somes :: "'a option list \<Rightarrow> 'a list" where
  "somes xs = map the (filter (\<lambda>x. x \<noteq> None) xs)"

text \<open>The type of the tile at \<open>(r, c)\<close> of a full board.\<close>

definition tile_type :: "Board \<Rightarrow> nat \<Rightarrow> nat \<Rightarrow> int" where
  "tile_type b r c = type (the (grid b ! r ! c))"

text \<open>
  \<open>run_of f n s e\<close>: the positions \<open>s, ..., e - 1\<close> are a maximal run of equal values of the
  line \<open>f\<close> of length \<open>n\<close> (it cannot be extended at either end). \<open>in_long_run f n k\<close>:
  position \<open>k\<close> lies in a maximal run of length at least 3.
\<close>

definition run_of :: "(nat \<Rightarrow> int) \<Rightarrow> nat \<Rightarrow> nat \<Rightarrow> nat \<Rightarrow> bool" where
  "run_of f n s e =
     (s < e \<and> e \<le> n \<and> (\<forall>k. s \<le> k \<and> k < e \<longrightarrow> f k = f s)
      \<and> (s = 0 \<or> f (s - 1) \<noteq> f s) \<and> (e = n \<or> f e \<noteq> f s))"

definition in_long_run :: "(nat \<Rightarrow> int) \<Rightarrow> nat \<Rightarrow> nat \<Rightarrow> bool" where
  "in_long_run f n k = (\<exists>s e. run_of f n s e \<and> s \<le> k \<and> k < e \<and> e - s \<ge> 3)"

text \<open>
  The match predicate of the run-matching game: the coordinate lies in a maximal horizontal run
  or in a maximal vertical run of at least 3 tiles of equal type.
\<close>

definition in_match :: "Board \<Rightarrow> nat \<times> nat \<Rightarrow> bool" where
  "in_match b p =
     (case p of (r, c) \<Rightarrow>
        r < rows b \<and> c < cols b
        \<and> (in_long_run (\<lambda>k. tile_type b r k) (cols b) c
           \<or> in_long_run (\<lambda>k. tile_type b k c) (rows b) r))"


definition advance :: "rand \<Rightarrow> nat \<Rightarrow> rand" where
  "advance rnd d = rnd\<lparr>pos := pos rnd + d\<rparr>"

definition draw_type :: "rand \<Rightarrow> nat \<Rightarrow> int" where
  "draw_type rnd d = TILE_TYPES ! (raw rnd (pos rnd + d) mod length TILE_TYPES)"

definition fillv :: "Tile list \<Rightarrow> rand \<Rightarrow> nat \<Rightarrow> Tile option" where
  "fillv stack rnd s =
     (if s < length stack then Some (stack ! s)
      else Some (new_Tile (draw_type rnd (s - length stack))))"

text \<open>The number of empty cells of column \<open>c\<close>.\<close>

definition holes :: "'a option list list \<Rightarrow> nat \<Rightarrow> nat" where
  "holes g c = length g - length (somes (column g c))"

section \<open>Concrete boards and games\<close>

text \<open>A board whose tiles have the listed types, and a game that has just been set up on it.\<close>

definition board_of :: "int list list \<Rightarrow> Board" where
  "board_of tss =
     \<lparr>rows = length tss, cols = (case tss of [] \<Rightarrow> 0 | ts # _ \<Rightarrow> length ts),
      grid = map (map (\<lambda>t. Some (new_Tile t))) tss\<rparr>"

definition game_on :: "Board \<Rightarrow> CandyLikeGame" where
  "game_on b =
     \<lparr>board = b, selected = None, animating = False, swap_animation = None,
      score = 0, combo = 0, paused = False, show_instructions = True\<rparr>"

section \<open>The run scan finds exactly the matched coordinates\<close>

lemma run_ofD:
  assumes "run_of f n s e"
  shows "s < e" "e \<le> n" "\<And>k. s \<le> k \<Longrightarrow> k < e \<Longrightarrow> f k = f s"
    "s = 0 \<or> f (s - 1) \<noteq> f s" "e = n \<or> f e \<noteq> f s"
  using assms unfolding run_of_def by blast+

lemma run_of_unique:
  assumes "run_of f n s e" "run_of f n s' e'" "s \<le> k" "k < e" "s' \<le> k" "k < e'"
  shows "s' = s \<and> e' = e"
proof -
  note a = run_ofD [OF assms(1)] and b = run_ofD [OF assms(2)]
  have fk: "f k = f s" "f k = f s'"
    using a(3) [of k] b(3) [of k] assms(3-6) by simp_all
  have "\<not> s < s'"
  proof
    assume lt: "s < s'"
    with assms(5,4) have "s \<le> s' - 1" "s' - 1 < e" by linarith+
    from a(3) [OF this] have "f (s' - 1) = f s" .
    moreover from b(4) lt have "f (s' - 1) \<noteq> f s'" by simp
    ultimately show False using fk by simp
  qed
  moreover have "\<not> s' < s"
  proof
    assume lt: "s' < s"
    with assms(3,6) have "s' \<le> s - 1" "s - 1 < e'" by linarith+
    from b(3) [OF this] have "f (s - 1) = f s'" .
    moreover from a(4) lt have "f (s - 1) \<noteq> f s" by simp
    ultimately show False using fk by simp
  qed
  moreover have "\<not> e < e'"
  proof
    assume lt: "e < e'"
    with assms(4,5) have "s' \<le> e" by linarith
    from b(3) [OF this lt] have "f e = f s'" .
    moreover from a(5) a(2) b(2) lt have "f e \<noteq> f s" by simp
    ultimately show False using fk by simp
  qed
  moreover have "\<not> e' < e"
  proof
    assume lt: "e' < e"
    with assms(6,3) have "s \<le> e'" by linarith
    from a(3) [OF this lt] have "f e' = f s" .
    moreover from b(5) a(2) b(2) lt have "f e' \<noteq> f s'" by simp
    ultimately show False using fk by simp
  qed
  ultimately show ?thesis by linarith
qed

lemma run_end_spec:
  assumes "\<forall>k<n. ty k = Inr (f k)" "c \<le> n"
  shows "\<exists>e. run_end ty n t c = Inr e \<and> c \<le> e \<and> e \<le> n
           \<and> (\<forall>k. c \<le> k \<and> k < e \<longrightarrow> f k = t) \<and> (e = n \<or> f e \<noteq> t)"
  using assms
proof (induction ty n t c rule: run_end.induct)
  case (1 ty n t c)
  show ?case
  proof (cases "c < n \<and> f c = t")
    case True
    then have tc: "ty c = Inr (f c)" using "1.prems" by simp
    from True have "c + 1 \<le> n" by simp
    from "1.IH" [OF _ tc _ "1.prems"(1) this] True obtain e where
      e: "run_end ty n t (c + 1) = Inr e" "c + 1 \<le> e" "e \<le> n"
         "\<forall>k. c + 1 \<le> k \<and> k < e \<longrightarrow> f k = t" "e = n \<or> f e \<noteq> t"
      by auto
    have "run_end ty n t c = Inr e"
      using True tc e(1) by (subst run_end.simps) simp
    moreover have "\<forall>k. c \<le> k \<and> k < e \<longrightarrow> f k = t"
    proof (intro allI impI)
      fix k assume "c \<le> k \<and> k < e"
      then show "f k = t" using e(4) True by (cases "k = c") auto
    qed
    ultimately show ?thesis using e by auto
  next
    case False
    show ?thesis
    proof (cases "c < n")
      case True
      then have tc: "ty c = Inr (f c)" using "1.prems" by simp
      with True False have "run_end ty n t c = Inr c" by (subst run_end.simps) simp
      with True False show ?thesis by auto
    next
      case False
      then have "run_end ty n t c = Inr c" by (subst run_end.simps) simp
      with False "1.prems" show ?thesis by auto
    qed
  qed
qed


lemma set_fold_insert:
  "set (fold (\<lambda>cc. List.insert (mk cc)) xs acc) = mk ` set xs \<union> set acc"
  by (induction xs arbitrary: acc) auto

lemma distinct_fold_insert:
  "distinct acc \<Longrightarrow> distinct (fold (\<lambda>cc. List.insert (mk cc)) xs acc)"
  by (induction xs arbitrary: acc) auto

lemma long_run_split:
  assumes run: "run_of f n c e"
  shows "{k. c \<le> k \<and> in_long_run f n k}
           = (if e - c \<ge> 3 then {c..<e} else {}) \<union> {k. e \<le> k \<and> in_long_run f n k}"
proof -
  have inside: "in_long_run f n k \<longleftrightarrow> e - c \<ge> 3" if "c \<le> k" "k < e" for k
  proof
    assume "in_long_run f n k"
    then obtain s' e' where r': "run_of f n s' e'" "s' \<le> k" "k < e'" "e' - s' \<ge> 3"
      unfolding in_long_run_def by blast
    from run_of_unique [OF run r'(1) that r'(2,3)] r'(4) show "e - c \<ge> 3" by simp
  next
    assume "e - c \<ge> 3"
    with run that show "in_long_run f n k" unfolding in_long_run_def by blast
  qed
  show ?thesis
  proof (intro set_eqI iffI)
    fix k assume "k \<in> {k. c \<le> k \<and> in_long_run f n k}"
    then have k: "c \<le> k" "in_long_run f n k" by simp_all
    show "k \<in> (if e - c \<ge> 3 then {c..<e} else {}) \<union> {k. e \<le> k \<and> in_long_run f n k}"
    proof (cases "k < e")
      case True
      with inside [OF k(1) True] k show ?thesis by simp
    next
      case False
      with k show ?thesis by simp
    qed
  next
    fix k assume a: "k \<in> (if e - c \<ge> 3 then {c..<e} else {}) \<union> {k. e \<le> k \<and> in_long_run f n k}"
    show "k \<in> {k. c \<le> k \<and> in_long_run f n k}"
    proof (cases "k < e")
      case True
      with a have "e - c \<ge> 3" "c \<le> k" by (auto split: if_splits)
      with inside [of k] True show ?thesis by simp
    next
      case False
      with a have "e \<le> k" "in_long_run f n k" by (auto split: if_splits)
      moreover from run have "c < e" by (simp add: run_of_def)
      ultimately show ?thesis by simp
    qed
  qed
qed

lemma scan_line_spec:
  assumes "\<forall>k<n. ty k = Inr (f k)" "c \<le> n" "c = 0 \<or> c = n \<or> f (c - 1) \<noteq> f c"
  shows "\<exists>out. scan_line ty mk n c acc = Inr out
           \<and> set out = set acc \<union> mk ` {k. c \<le> k \<and> in_long_run f n k}
           \<and> (distinct acc \<longrightarrow> distinct out)"
  using assms
proof (induction ty mk n c acc rule: scan_line.induct)
  case (1 ty mk n c acc)
  show ?case
  proof (cases "c < n")
    case False
    with "1.prems" have cn: "c = n" by simp
    have "\<not> (c \<le> k \<and> in_long_run f n k)" for k
      unfolding in_long_run_def run_of_def using cn by auto
    then have emp: "{k. c \<le> k \<and> in_long_run f n k} = {}" by blast
    from False have stop: "scan_line ty mk n c acc = Inr acc"
      by (subst scan_line.simps) simp
    show ?thesis
    proof (intro exI conjI)
      show "scan_line ty mk n c acc = Inr acc" by (fact stop)
      show "set acc = set acc \<union> mk ` {k. c \<le> k \<and> in_long_run f n k}"
        unfolding emp by simp
      show "distinct acc \<longrightarrow> distinct acc" by simp
    qed
  next
    case True
    then have tc: "ty c = Inr (f c)" using "1.prems"(1) by simp
    from True have "c + 1 \<le> n" by simp
    from run_end_spec [OF "1.prems"(1) this, of "f c"] obtain e where
      e: "run_end ty n (f c) (c + 1) = Inr e" "c + 1 \<le> e" "e \<le> n"
         "\<forall>k. c + 1 \<le> k \<and> k < e \<longrightarrow> f k = f c" "e = n \<or> f e \<noteq> f c"
      by blast
    have all: "f k = f c" if "c \<le> k" "k < e" for k
      using that e(4) by (cases "k = c") auto
    have run: "run_of f n c e"
      unfolding run_of_def
    proof (intro conjI allI impI)
      show "c < e" using e(2) by simp
      show "e \<le> n" by (fact e(3))
      show "f k = f c" if "c \<le> k \<and> k < e" for k using all that by blast
      show "c = 0 \<or> f (c - 1) \<noteq> f c" using "1.prems"(3) True by simp
      show "e = n \<or> f e \<noteq> f c" by (fact e(5))
    qed
    let ?acc' = "if e - c \<ge> 3 then fold (\<lambda>cc. List.insert (mk cc)) [c..<e] acc else acc"
    have "f (e - 1) = f c" using all [of "e - 1"] e(2) by simp
    with e(5) have bnd: "e = 0 \<or> e = n \<or> f (e - 1) \<noteq> f e" by metis
    from "1.IH" [OF True tc e(1) "1.prems"(1) e(3) bnd] obtain out where
      out: "scan_line ty mk n e ?acc' = Inr out"
           "set out = set ?acc' \<union> mk ` {k. e \<le> k \<and> in_long_run f n k}"
           "distinct ?acc' \<longrightarrow> distinct out"
      by blast
    have "scan_line ty mk n c acc = Inr out"
      using True tc e(1) out(1) by (subst scan_line.simps) simp
    moreover have "set out = set acc \<union> mk ` {k. c \<le> k \<and> in_long_run f n k}"
      unfolding out(2) long_run_split [OF run]
      by (auto simp: set_fold_insert)
    moreover have "distinct acc \<longrightarrow> distinct out"
      using out(3) by (simp add: distinct_fold_insert)
    ultimately show ?thesis by blast
  qed
qed


lemma wf_grid_nth: "wf_grid n m g \<Longrightarrow> r < n \<Longrightarrow> length (g ! r) = m"
  by (simp add: wf_grid_def)

lemma wf_grid_length: "wf_grid n m g \<Longrightarrow> length g = n"
  by (simp add: wf_grid_def)

lemma cell_wf: "wf_grid n m g \<Longrightarrow> r < n \<Longrightarrow> c < m \<Longrightarrow> cell g r c = Inr (g ! r ! c)"
  by (simp add: cell_def wf_grid_def)

lemma full_board_Some:
  assumes "full_board b" "r < rows b" "c < cols b"
  shows "\<exists>t. grid b ! r ! c = Some t"
proof -
  from assms have "grid b ! r \<in> set (grid b)" "length (grid b ! r) = cols b"
    by (simp_all add: full_board_def wf_grid_def)
  with assms(3) have "grid b ! r ! c \<in> set (grid b ! r)" by simp
  with assms(1) \<open>grid b ! r \<in> set (grid b)\<close> have "grid b ! r ! c \<noteq> None"
    unfolding full_board_def by blast
  then show ?thesis by auto
qed

lemma type_at_full:
  assumes "full_board b" "r < rows b" "c < cols b"
  shows "type_at b r c = Inr (tile_type b r c)"
proof -
  from full_board_Some [OF assms] obtain t where t: "grid b ! r ! c = Some t" ..
  from assms have "cell (grid b) r c = Inr (grid b ! r ! c)"
    by (intro cell_wf [of "rows b" "cols b"]) (simp_all add: full_board_def)
  with t show ?thesis by (simp add: type_at_def tile_type_def)
qed

lemma fold_err_append:
  "fold_err f (xs @ ys) s = (case fold_err f xs s of Inl e \<Rightarrow> Inl e | Inr s' \<Rightarrow> fold_err f ys s')"
  by (induction xs arbitrary: s) (auto split: sum.splits)

lemma in_long_run_less:
  assumes "in_long_run f n k"
  shows "k < n"
proof -
  from assms obtain s e where "run_of f n s e" "k < e"
    unfolding in_long_run_def by blast
  with run_ofD(2) [of f n s e] show ?thesis by linarith
qed

lemma fold_scan_lines:
  assumes "\<forall>i<j. \<forall>k<n. ty i k = Inr (f i k)"
  shows "\<exists>out. fold_err (\<lambda>i. scan_line (ty i) (mk i) n 0) [0..<j] acc = Inr out
           \<and> set out = set acc \<union> (\<Union>i<j. mk i ` {k. in_long_run (f i) n k})
           \<and> (distinct acc \<longrightarrow> distinct out)"
  using assms
proof (induction j)
  case 0
  show ?case by simp
next
  case (Suc j)
  from Suc.IH Suc.prems obtain mid where
    mid: "fold_err (\<lambda>i. scan_line (ty i) (mk i) n 0) [0..<j] acc = Inr mid"
         "set mid = set acc \<union> (\<Union>i<j. mk i ` {k. in_long_run (f i) n k})"
         "distinct acc \<longrightarrow> distinct mid"
    by auto
  from Suc.prems have "\<forall>k<n. ty j k = Inr (f j k)" by simp
  from scan_line_spec [OF this, of 0 "mk j" mid] obtain out where
    out: "scan_line (ty j) (mk j) n 0 mid = Inr out"
         "set out = set mid \<union> mk j ` {k. 0 \<le> k \<and> in_long_run (f j) n k}"
         "distinct mid \<longrightarrow> distinct out"
    by auto
  have "fold_err (\<lambda>i. scan_line (ty i) (mk i) n 0) [0..<Suc j] acc = Inr out"
    using mid(1) out(1) by (simp add: fold_err_append)
  moreover have "set out = set acc \<union> (\<Union>i<Suc j. mk i ` {k. in_long_run (f i) n k})"
    unfolding out(2) mid(2) by (simp add: lessThan_Suc Un_commute Un_left_commute)
  moreover have "distinct acc \<longrightarrow> distinct out" using mid(3) out(3) by simp
  ultimately show ?case by blast
qed

text \<open>
  C1. On every full board \<open>find_matches\<close> returns (without raising) the coordinates that lie
  in a maximal horizontal or vertical run of at least 3 tiles of equal type, exactly those, and
  each of them once, also when a coordinate lies in a row run and in a column run.
\<close>

theorem find_matches_exact:
  assumes "full_board b"
  shows "\<exists>ms. find_matches b = Inr ms \<and> distinct ms \<and> set ms = {p. in_match b p}"
proof -
  have h: "\<forall>r<rows b. \<forall>k<cols b. type_at b r k = Inr (tile_type b r k)"
    using type_at_full [OF assms] by simp
  have v: "\<forall>c<cols b. \<forall>k<rows b. type_at b k c = Inr (tile_type b k c)"
    using type_at_full [OF assms] by simp
  from fold_scan_lines [of "rows b" "cols b" "\<lambda>r c. type_at b r c" "\<lambda>r c. tile_type b r c"
      "\<lambda>r c. (r, c)" "[]"] h
  obtain hs where
    hs: "fold_err (\<lambda>r. scan_line (\<lambda>c. type_at b r c) (\<lambda>c. (r, c)) (cols b) 0) [0..<rows b] []
           = Inr hs"
        "set hs = (\<Union>r<rows b. (\<lambda>c. (r, c)) ` {k. in_long_run (\<lambda>c. tile_type b r c) (cols b) k})"
        "distinct hs"
    by auto
  from fold_scan_lines [of "cols b" "rows b" "\<lambda>c r. type_at b r c" "\<lambda>c r. tile_type b r c"
      "\<lambda>c r. (r, c)" hs] v
  obtain ms where
    ms: "fold_err (\<lambda>c. scan_line (\<lambda>r. type_at b r c) (\<lambda>r. (r, c)) (rows b) 0) [0..<cols b] hs
           = Inr ms"
        "set ms = set hs
           \<union> (\<Union>c<cols b. (\<lambda>r. (r, c)) ` {k. in_long_run (\<lambda>r. tile_type b r c) (rows b) k})"
        "distinct hs \<longrightarrow> distinct ms"
    by auto
  have "find_matches b = Inr ms" using hs(1) ms(1) by (simp add: find_matches_def)
  moreover have "distinct ms" using hs(3) ms(3) by simp
  moreover have "set ms = {p. in_match b p}"
  proof (intro set_eqI iffI)
    fix p assume "p \<in> set ms"
    then show "p \<in> {p. in_match b p}"
      unfolding ms(2) hs(2) in_match_def
      by (auto dest: in_long_run_less)
  next
    fix p assume "p \<in> {p. in_match b p}"
    then show "p \<in> set ms"
      unfolding ms(2) hs(2) in_match_def
      by (cases p) auto
  qed
  ultimately show ?thesis by blast
qed

theorem find_matches_exact_witness:
  "full_board (board_of [[1, 1, 1], [2, 1, 3], [4, 1, 5]])
    \<and> find_matches (board_of [[1, 1, 1], [2, 1, 3], [4, 1, 5]])
        = Inr [(2, 1), (1, 1), (0, 2), (0, 1), (0, 0)]
    \<and> {p. in_match (board_of [[1, 1, 1], [2, 1, 3], [4, 1, 5]]) p}
        = {(0, 0), (0, 1), (0, 2), (1, 1), (2, 1)}"
proof -
  let ?b = "board_of [[1, 1, 1], [2, 1, 3], [4, 1, 5]]"
  have full: "full_board ?b"
    by (simp add: board_of_def full_board_def wf_grid_def)
  have run: "find_matches ?b = Inr [(2, 1), (1, 1), (0, 2), (0, 1), (0, 0)]"
    by (simp add: board_of_def find_matches_def scan_line.simps run_end.simps type_at_def
        cell_def new_Tile_def upt_rec)
  from find_matches_exact [OF full] obtain ms where
    ms: "find_matches ?b = Inr ms" "set ms = {p. in_match ?b p}"
    by blast
  from ms(1) run have val: "ms = [(2, 1), (1, 1), (0, 2), (0, 1), (0, 0)]" by simp
  from ms(2) have "{p. in_match ?b p} = set ms" by (rule sym)
  also have "set ms = {(0, 0), (0, 1), (0, 2), (1, 1), (2, 1)}"
    unfolding val by auto
  finally have "{p. in_match ?b p} = {(0, 0), (0, 1), (0, 2), (1, 1), (2, 1)}" .
  with full run show ?thesis by blast
qed

section \<open>Swap requests\<close>

text \<open>
  C9. A swap request whose two coordinates are not at Manhattan distance 1 is rejected: the
  call returns normally and the whole game state (the swap state machine and every grid cell
  with it) is the one it was called on.
\<close>

theorem try_swap_rejects_non_adjacent:
  "\<bar>r1 - r2\<bar> + \<bar>c1 - c2\<bar> \<noteq> 1 \<Longrightarrow> try_swap g (r1, c1) (r2, c2) = Inr g"
  by (simp add: try_swap_def)

theorem try_swap_rejects_non_adjacent_witness:
  "\<bar>(0::int) - 0\<bar> + \<bar>(0::int) - 2\<bar> \<noteq> 1
    \<and> try_swap (game_on (board_of [[0, 1, 2], [3, 4, 5]])) (0, 0) (0, 2)
        = Inr (game_on (board_of [[0, 1, 2], [3, 4, 5]]))"
  using try_swap_rejects_non_adjacent [of 0 0 0 2 "game_on (board_of [[0, 1, 2], [3, 4, 5]])"]
  by simp

section \<open>Gravity in the run-matching game\<close>

lemma wf_grid_update:
  assumes "wf_grid n m g"
  shows "wf_grid n m (g[r := (g ! r)[c := v]])"
proof -
  have "length ((g[r := (g ! r)[c := v]]) ! i) = m" if "i < length g" for i
    using that assms by (cases "i = r") (simp_all add: wf_grid_def)
  with assms show ?thesis by (simp add: wf_grid_def all_set_conv_all_nth)
qed

lemma set_cell_wf:
  "wf_grid n m g \<Longrightarrow> r < n \<Longrightarrow> c < m \<Longrightarrow> set_cell g r c v = Inr (g[r := (g ! r)[c := v]])"
  by (simp add: set_cell_def wf_grid_def)

lemma nth_grid_update:
  "wf_grid n m g \<Longrightarrow> i < n \<Longrightarrow> j < m
    \<Longrightarrow> g[r := (g ! r)[c := v]] ! i ! j = (if i = r \<and> j = c then v else g ! i ! j)"
  by (cases "i = r"; cases "j = c") (simp_all add: wf_grid_def)

lemma somes_append: "somes (xs @ ys) = somes xs @ somes ys"
  by (simp add: somes_def)

lemma somes_map_Some: "somes (map Some xs) = xs"
  by (induction xs) (simp_all add: somes_def)

lemma length_somes_le: "length (somes xs) \<le> length xs"
  by (simp add: somes_def)

lemma column_nth: "r < length g \<Longrightarrow> column g c ! r = g ! r ! c"
  by (simp add: column_def)

lemma length_column: "length (column g c) = length g"
  by (simp add: column_def)

lemma column_stack_take:
  assumes "wf_grid n m g" "c < m" "k \<le> n"
  shows "fold_err (\<lambda>r stack.
           case cell g r c of
             Inl e \<Rightarrow> Inl e
           | Inr None \<Rightarrow> Inr stack
           | Inr (Some t) \<Rightarrow> Inr (stack @ [t])) (rev [0..<k]) acc
         = Inr (acc @ rev (somes (take k (column g c))))"
  using assms(3)
proof (induction k arbitrary: acc)
  case 0
  show ?case by (simp add: somes_def)
next
  case (Suc k)
  then have k: "k < n" by simp
  with assms have cellk: "cell g k c = Inr (g ! k ! c)" by (simp add: cell_wf)
  from k assms(1) have tk: "take (Suc k) (column g c) = take k (column g c) @ [g ! k ! c]"
    by (simp add: take_Suc_conv_app_nth length_column column_nth wf_grid_def)
  show ?case
  proof (cases "g ! k ! c")
    case None
    with cellk tk Suc.IH [of acc] k show ?thesis
      by (simp add: somes_append somes_def)
  next
    case (Some t)
    with cellk tk Suc.IH [of "acc @ [t]"] k show ?thesis
      by (simp add: somes_append somes_def)
  qed
qed

lemma column_stack_eq:
  assumes "wf_grid n m g" "c < m"
  shows "column_stack g n c = Inr (rev (somes (column g c)))"
  using column_stack_take [OF assms, of n "[]"] assms(1)
  by (simp add: column_stack_def length_column wf_grid_def)

lemma advance_0 [simp]: "advance rnd 0 = rnd"
  by (simp add: advance_def)

lemma advance_advance [simp]: "advance (advance rnd a) b = advance rnd (a + b)"
  by (simp add: advance_def)

lemma random_choice_TILE:
  "random_choice TILE_TYPES rnd = (draw_type rnd 0, advance rnd 1)"
  by (simp add: random_choice_def randbelow_def draw_type_def advance_def)

lemma draw_type_advance [simp]: "draw_type (advance rnd a) d = draw_type rnd (a + d)"
  by (simp add: draw_type_def advance_def add.assoc)

lemma draw_type_mem: "draw_type rnd d \<in> set TILE_TYPES"
  unfolding draw_type_def by (rule nth_mem) (simp add: TILE_TYPES_def)

lemma fill_column_Suc:
  "fill_column g (Suc k) c stack rnd =
     (case stack of
        t # rest \<Rightarrow>
          (case set_cell g k c (Some t) of
             Inl e \<Rightarrow> Inl e
           | Inr g' \<Rightarrow> fill_column g' k c rest rnd)
      | [] \<Rightarrow>
          (case set_cell g k c (Some (new_Tile (draw_type rnd 0))) of
             Inl e \<Rightarrow> Inl e
           | Inr g' \<Rightarrow> fill_column g' k c [] (advance rnd 1)))"
  by (simp add: fill_column_def random_choice_TILE split: list.splits sum.splits)

lemma fill_column_0: "fill_column g 0 c stack rnd = Inr (g, stack, rnd)"
  by (simp add: fill_column_def)

lemma fill_column_spec:
  assumes "wf_grid n m g" "c < m" "k \<le> n"
  shows "\<exists>g'. fill_column g k c stack rnd
                = Inr (g', drop k stack, advance rnd (k - length stack))
           \<and> wf_grid n m g'
           \<and> (\<forall>i<n. \<forall>j<m. g' ! i ! j
                 = (if j = c \<and> i < k then fillv stack rnd (k - 1 - i) else g ! i ! j))"
  using assms
proof (induction k arbitrary: g stack rnd)
  case 0
  then show ?case by (simp add: fill_column_0)
next
  case (Suc k)
  then have k: "k < n" "k \<le> n" by simp_all
  show ?case
  proof (cases stack)
    case Nil
    let ?v = "Some (new_Tile (draw_type rnd 0))"
    let ?g1 = "g[k := (g ! k)[c := ?v]]"
    have wf1: "wf_grid n m ?g1" using Suc.prems(1) by (rule wf_grid_update)
    from Suc.IH [OF wf1 Suc.prems(2) k(2), of "[]" "advance rnd 1"] obtain g' where
      g': "fill_column ?g1 k c [] (advance rnd 1) = Inr (g', [], advance rnd (1 + k))"
          "wf_grid n m g'"
          "\<forall>i<n. \<forall>j<m. g' ! i ! j
             = (if j = c \<and> i < k then fillv [] (advance rnd 1) (k - 1 - i) else ?g1 ! i ! j)"
      by auto
    have "fill_column g (Suc k) c stack rnd = Inr (g', drop (Suc k) stack,
            advance rnd (Suc k - length stack))"
      using Nil g'(1) set_cell_wf [OF Suc.prems(1) k(1) Suc.prems(2)]
      by (simp add: fill_column_Suc)
    moreover have "g' ! i ! j
        = (if j = c \<and> i < Suc k then fillv stack rnd (Suc k - 1 - i) else g ! i ! j)"
      if "i < n" "j < m" for i j
    proof -
      from g'(3) that have eq: "g' ! i ! j
          = (if j = c \<and> i < k then fillv [] (advance rnd 1) (k - 1 - i) else ?g1 ! i ! j)"
        by blast
      have upd: "?g1 ! i ! j = (if i = k \<and> j = c then ?v else g ! i ! j)"
        using nth_grid_update [OF Suc.prems(1) that] .
      show ?thesis
      proof (cases "j = c \<and> i < k")
        case True
        then have "Suc (k - 1 - i) = k - i" by linarith
        with True eq Nil show ?thesis by (simp add: fillv_def)
      next
        case False
        with eq upd Nil show ?thesis by (auto simp: fillv_def less_Suc_eq)
      qed
    qed
    ultimately show ?thesis using g'(2) by blast
  next
    case (Cons t rest)
    let ?v = "Some t"
    let ?g1 = "g[k := (g ! k)[c := ?v]]"
    have wf1: "wf_grid n m ?g1" using Suc.prems(1) by (rule wf_grid_update)
    from Suc.IH [OF wf1 Suc.prems(2) k(2), of rest rnd] obtain g' where
      g': "fill_column ?g1 k c rest rnd = Inr (g', drop k rest, advance rnd (k - length rest))"
          "wf_grid n m g'"
          "\<forall>i<n. \<forall>j<m. g' ! i ! j
             = (if j = c \<and> i < k then fillv rest rnd (k - 1 - i) else ?g1 ! i ! j)"
      by auto
    have "fill_column g (Suc k) c stack rnd = Inr (g', drop (Suc k) stack,
            advance rnd (Suc k - length stack))"
      using Cons g'(1) set_cell_wf [OF Suc.prems(1) k(1) Suc.prems(2)]
      by (simp add: fill_column_Suc)
    moreover have "g' ! i ! j
        = (if j = c \<and> i < Suc k then fillv stack rnd (Suc k - 1 - i) else g ! i ! j)"
      if "i < n" "j < m" for i j
    proof -
      from g'(3) that have eq: "g' ! i ! j
          = (if j = c \<and> i < k then fillv rest rnd (k - 1 - i) else ?g1 ! i ! j)"
        by blast
      have upd: "?g1 ! i ! j = (if i = k \<and> j = c then ?v else g ! i ! j)"
        using nth_grid_update [OF Suc.prems(1) that] .
      show ?thesis
      proof (cases "j = c \<and> i < k")
        case True
        then have "k - i = Suc (k - 1 - i)" by linarith
        with True eq Cons show ?thesis by (simp add: fillv_def)
      next
        case False
        with eq upd Cons show ?thesis by (auto simp: fillv_def less_Suc_eq)
      qed
    qed
    ultimately show ?thesis using g'(2) by blast
  qed
qed

lemma collapse_column_spec:
  assumes wf: "wf_grid n m g" and c: "c < m"
  shows "\<exists>g'. collapse_column n c (g, rnd)
                = Inr (g', advance rnd (n - length (somes (column g c))))
           \<and> wf_grid n m g'
           \<and> (\<forall>j<m. j \<noteq> c \<longrightarrow> column g' j = column g j)
           \<and> column g' c
               = map Some (rev (map (\<lambda>d. new_Tile (draw_type rnd d))
                                  [0..<n - length (somes (column g c))]))
                 @ map Some (somes (column g c))"
proof -
  let ?S = "somes (column g c)"
  let ?L = "length ?S"
  let ?h = "n - ?L"
  let ?F = "\<lambda>d. new_Tile (draw_type rnd d)"
  have len: "length g = n" using wf by (simp add: wf_grid_def)
  have L: "?L \<le> n" using length_somes_le [of "column g c"] len by (simp add: length_column)
  from fill_column_spec [OF wf c order_refl, of "rev ?S" rnd] obtain g' where
    g': "fill_column g n c (rev ?S) rnd = Inr (g', drop n (rev ?S), advance rnd ?h)"
        "wf_grid n m g'"
        "\<forall>i<n. \<forall>j<m. g' ! i ! j
           = (if j = c \<and> i < n then fillv (rev ?S) rnd (n - 1 - i) else g ! i ! j)"
    by auto
  have len': "length g' = n" using g'(2) by (simp add: wf_grid_def)
  have run: "collapse_column n c (g, rnd) = Inr (g', advance rnd ?h)"
    using column_stack_eq [OF wf c] g'(1) by (simp add: collapse_column_def)
  have other: "column g' j = column g j" if "j < m" "j \<noteq> c" for j
  proof (rule nth_equalityI)
    show "length (column g' j) = length (column g j)" by (simp add: length_column len len')
  next
    fix i assume "i < length (column g' j)"
    then have i: "i < n" by (simp add: length_column len')
    with g'(3) that have "g' ! i ! j = g ! i ! j" by simp
    with i show "column g' j ! i = column g j ! i" by (simp add: column_nth len len')
  qed
  have this_col: "column g' c = map Some (rev (map ?F [0..<?h])) @ map Some ?S"
  proof (rule nth_equalityI)
    show "length (column g' c) = length (map Some (rev (map ?F [0..<?h])) @ map Some ?S)"
      using L by (simp add: length_column len')
  next
    fix i assume "i < length (column g' c)"
    then have i: "i < n" by (simp add: length_column len')
    with g'(3) c have v: "column g' c ! i = fillv (rev ?S) rnd (n - 1 - i)"
      by (simp add: column_nth len')
    show "column g' c ! i = (map Some (rev (map ?F [0..<?h])) @ map Some ?S) ! i"
    proof (cases "i < ?h")
      case True
      then have a: "\<not> n - 1 - i < ?L" and b: "n - 1 - i - ?L = ?h - Suc i" by linarith+
      have "rev (map ?F [0..<?h]) ! i = ?F (?h - Suc i)"
        using True by (simp add: rev_nth)
      with True a b v show ?thesis by (simp add: fillv_def nth_append)
    next
      case False
      with i L have a: "n - 1 - i < ?L" and b: "?L - Suc (n - 1 - i) = i - ?h"
        and d: "i - ?h < ?L" by linarith+
      have "rev ?S ! (n - 1 - i) = ?S ! (i - ?h)"
        using a b by (simp add: rev_nth)
      with False a d v show ?thesis by (simp add: fillv_def nth_append)
    qed
  qed
  from run g'(2) other this_col show ?thesis by blast
qed

lemma fresh_tiles_mem:
  "set (rev (map (\<lambda>d. new_Tile (draw_type rnd d)) [0..<h])) \<subseteq> new_Tile ` set TILE_TYPES"
  using draw_type_mem by auto

lemma collapse_columns_upto:
  assumes wf: "wf_grid n m g" and j: "j \<le> m"
  shows "\<exists>g'. fold_err (collapse_column n) [0..<j] (g, rnd)
                = Inr (g', advance rnd (\<Sum>c<j. holes g c))
           \<and> wf_grid n m g'
           \<and> (\<forall>c<m. j \<le> c \<longrightarrow> column g' c = column g c)
           \<and> (\<forall>c<j. \<exists>fresh. set fresh \<subseteq> new_Tile ` set TILE_TYPES
                  \<and> column g' c = map Some fresh @ map Some (somes (column g c)))"
  using j
proof (induction j)
  case 0
  with wf show ?case by simp
next
  case (Suc j)
  then have jm: "j < m" "j \<le> m" by simp_all
  from Suc.IH [OF jm(2)] obtain g1 where
    g1: "fold_err (collapse_column n) [0..<j] (g, rnd) = Inr (g1, advance rnd (\<Sum>c<j. holes g c))"
        "wf_grid n m g1"
        "\<forall>c<m. j \<le> c \<longrightarrow> column g1 c = column g c"
        "\<forall>c<j. \<exists>fresh. set fresh \<subseteq> new_Tile ` set TILE_TYPES
                  \<and> column g1 c = map Some fresh @ map Some (somes (column g c))"
    by blast
  let ?r1 = "advance rnd (\<Sum>c<j. holes g c)"
  from g1(3) jm(1) have same: "column g1 j = column g j" by simp
  have lens: "length g1 = n" "length g = n" using g1(2) wf by (simp_all add: wf_grid_def)
  from collapse_column_spec [OF g1(2) jm(1), of ?r1] obtain g2 where
    g2: "collapse_column n j (g1, ?r1)
           = Inr (g2, advance ?r1 (n - length (somes (column g1 j))))"
        "wf_grid n m g2"
        "\<forall>c<m. c \<noteq> j \<longrightarrow> column g2 c = column g1 c"
        "column g2 j
           = map Some (rev (map (\<lambda>d. new_Tile (draw_type ?r1 d))
                              [0..<n - length (somes (column g1 j))]))
             @ map Some (somes (column g1 j))"
    by blast
  have "fold_err (collapse_column n) [0..<Suc j] (g, rnd)
          = Inr (g2, advance rnd (\<Sum>c<Suc j. holes g c))"
    using g1(1) g2(1) same lens by (simp add: fold_err_append holes_def)
  moreover have "\<forall>c<m. Suc j \<le> c \<longrightarrow> column g2 c = column g c"
  proof (intro allI impI)
    fix c assume c: "c < m" "Suc j \<le> c"
    then have "c \<noteq> j" "j \<le> c" by simp_all
    with g2(3) g1(3) c(1) have "column g2 c = column g1 c" "column g1 c = column g c"
      by blast+
    then show "column g2 c = column g c" by (rule trans)
  qed
  moreover have "\<exists>fresh. set fresh \<subseteq> new_Tile ` set TILE_TYPES
                  \<and> column g2 c = map Some fresh @ map Some (somes (column g c))"
    if "c < Suc j" for c
  proof (cases "c = j")
    case True
    let ?fr = "rev (map (\<lambda>d. new_Tile (draw_type ?r1 d))
                     [0..<n - length (somes (column g1 j))])"
    show ?thesis
    proof (intro exI conjI)
      show "set ?fr \<subseteq> new_Tile ` set TILE_TYPES" by (rule fresh_tiles_mem)
      show "column g2 c = map Some ?fr @ map Some (somes (column g c))"
        unfolding True g2(4) same ..
    qed
  next
    case False
    with that jm have cj: "c < j" "c < m" by simp_all
    with g2(3) False have eq: "column g2 c = column g1 c" by blast
    from g1(4) cj(1) obtain fresh where
      "set fresh \<subseteq> new_Tile ` set TILE_TYPES"
      "column g1 c = map Some fresh @ map Some (somes (column g c))"
      by blast
    then show ?thesis unfolding eq by blast
  qed
  ultimately show ?case using g2(2) by blast
qed

lemma mark_cell_eq:
  assumes "wf_grid n m g" "r < n" "c < m"
  shows "mark_cell (r, c) (g, k)
           = Inr (g[r := (g ! r)[c := None]], if g ! r ! c = None then k else k + 1)"
proof (cases "g ! r ! c")
  case None
  then have "(g ! r)[c := None] = g ! r" by (metis list_update_id)
  then have "g[r := (g ! r)[c := None]] = g" by simp
  with None assms show ?thesis by (simp add: mark_cell_def cell_wf)
next
  case (Some t)
  with assms show ?thesis by (simp add: mark_cell_def cell_wf set_cell_wf)
qed

lemma mark_cell_bounds:
  assumes "mark_cell (r, c) (g, k) = Inr s'" "wf_grid n m g"
  shows "r < n \<and> c < m"
proof -
  from assms(1) have "cell g r c \<noteq> Inl IndexError"
    by (auto simp: mark_cell_def split: sum.splits)
  then have "r < length g" "c < length (g ! r)"
    by (auto simp: cell_def split: if_splits)
  with assms(2) show ?thesis by (simp add: wf_grid_def)
qed

lemma mark_fold_wf:
  "fold_err mark_cell coords (g, k) = Inr (g', k') \<Longrightarrow> wf_grid n m g \<Longrightarrow> wf_grid n m g'"
proof (induction coords arbitrary: g k)
  case Nil
  then show ?case by simp
next
  case (Cons p coords)
  obtain r c where p: "p = (r, c)" by (cases p)
  from Cons.prems(1) obtain s1 where s1: "mark_cell p (g, k) = Inr s1"
    and rest: "fold_err mark_cell coords s1 = Inr (g', k')"
    by (auto split: sum.splits)
  from mark_cell_bounds [OF s1 [unfolded p] Cons.prems(2)] have b: "r < n" "c < m" by simp_all
  from s1 mark_cell_eq [OF Cons.prems(2) b, of k] p
  have "s1 = (g[r := (g ! r)[c := None]], if g ! r ! c = None then k else k + 1)" by simp
  with rest Cons.IH [of "g[r := (g ! r)[c := None]]" _] wf_grid_update [OF Cons.prems(2)]
  show ?case by blast
qed

lemma mark_fold_total:
  "wf_grid n m g \<Longrightarrow> \<forall>p \<in> set coords. fst p < n \<and> snd p < m
    \<Longrightarrow> \<exists>g' k'. fold_err mark_cell coords (g, k) = Inr (g', k')"
proof (induction coords arbitrary: g k)
  case Nil
  then show ?case by simp
next
  case (Cons p coords)
  obtain r c where p: "p = (r, c)" by (cases p)
  with Cons.prems(2) have b: "r < n" "c < m" by simp_all
  from Cons.prems(2) have rest: "\<forall>p \<in> set coords. fst p < n \<and> snd p < m" by simp
  from Cons.IH [OF wf_grid_update [OF Cons.prems(1)] rest]
    mark_cell_eq [OF Cons.prems(1) b, of k] p
  show ?case by simp
qed

lemma mark_fold_count:
  assumes "wf_grid n m g" "\<forall>p \<in> set coords. fst p < n \<and> snd p < m" "distinct coords"
    "\<forall>p \<in> set coords. g ! fst p ! snd p \<noteq> None"
  shows "\<exists>g'. fold_err mark_cell coords (g, k) = Inr (g', k + length coords)"
  using assms
proof (induction coords arbitrary: g k)
  case Nil
  then show ?case by simp
next
  case (Cons p coords)
  obtain r c where p: "p = (r, c)" by (cases p)
  with Cons.prems(2) have b: "r < n" "c < m" by simp_all
  let ?g1 = "g[r := (g ! r)[c := None]]"
  from Cons.prems(4) p have some: "g ! r ! c \<noteq> None" by simp
  have step: "mark_cell p (g, k) = Inr (?g1, k + 1)"
    using mark_cell_eq [OF Cons.prems(1) b, of k] some p by simp
  have keep: "\<forall>q \<in> set coords. ?g1 ! fst q ! snd q \<noteq> None"
  proof
    fix q assume q: "q \<in> set coords"
    with Cons.prems(2) have qb: "fst q < n" "snd q < m" by simp_all
    from q Cons.prems(3) p have "q \<noteq> (r, c)" by auto
    then have "\<not> (fst q = r \<and> snd q = c)" by (cases q) simp
    with nth_grid_update [OF Cons.prems(1) qb, of r c None] Cons.prems(4) q
    show "?g1 ! fst q ! snd q \<noteq> None" by simp
  qed
  from Cons.prems have "\<forall>p \<in> set coords. fst p < n \<and> snd p < m" "distinct coords" by simp_all
  from Cons.IH [OF wf_grid_update [OF Cons.prems(1)] this keep, of "k + 1"] step
  show ?case by simp
qed

lemma full_from_columns:
  assumes "wf_grid n m g" "\<forall>c<m. None \<notin> set (column g c)"
  shows "\<forall>row \<in> set g. \<forall>x \<in> set row. x \<noteq> None"
proof (intro ballI)
  fix row x assume "row \<in> set g" "x \<in> set row"
  then obtain i j where i: "i < length g" "row = g ! i" and j: "j < length row" "x = row ! j"
    by (metis in_set_conv_nth)
  with assms(1) have jm: "j < m" by (simp add: wf_grid_def)
  from i j have "x = column g j ! i" by (simp add: column_nth)
  with i have "x \<in> set (column g j)" by (simp add: length_column)
  with assms(2) jm show "x \<noteq> None" by metis
qed

lemma collapse_columns_full:
  assumes "wf_grid n m g"
  shows "\<exists>g'. collapse_columns n m g rnd = Inr (g', advance rnd (\<Sum>c<m. holes g c))
           \<and> wf_grid n m g' \<and> (\<forall>row \<in> set g'. \<forall>x \<in> set row. x \<noteq> None)"
proof -
  from collapse_columns_upto [OF assms order_refl, of rnd] obtain g' where
    g': "fold_err (collapse_column n) [0..<m] (g, rnd) = Inr (g', advance rnd (\<Sum>c<m. holes g c))"
        "wf_grid n m g'"
        "\<forall>c<m. \<exists>fresh. set fresh \<subseteq> new_Tile ` set TILE_TYPES
                  \<and> column g' c = map Some fresh @ map Some (somes (column g c))"
    by blast
  have "\<forall>c<m. None \<notin> set (column g' c)"
  proof (intro allI impI)
    fix c assume "c < m"
    with g'(3) obtain fresh where "column g' c = map Some fresh @ map Some (somes (column g c))"
      by blast
    then show "None \<notin> set (column g' c)" by auto
  qed
  from full_from_columns [OF g'(2) this] g'(1,2) show ?thesis
    by (auto simp: collapse_columns_def)
qed

lemma remove_and_collapse_full:
  assumes "wf_grid (rows b) (cols b) (grid b)"
    and "remove_and_collapse b coords rnd = Inr (k, b', rnd')"
  shows "full_board b' \<and> rows b' = rows b \<and> cols b' = cols b"
proof -
  from assms(2) obtain g1 where
    m: "mark_removed (grid b) coords = Inr (g1, k)"
    by (auto simp: remove_and_collapse_def split: sum.splits prod.splits)
  from mark_fold_wf [OF m [unfolded mark_removed_def] assms(1)]
  have wf1: "wf_grid (rows b) (cols b) g1" .
  from collapse_columns_full [OF wf1, of rnd] obtain g' where
    g': "collapse_columns (rows b) (cols b) g1 rnd
           = Inr (g', advance rnd (\<Sum>c<cols b. holes g1 c))"
        "wf_grid (rows b) (cols b) g'" "\<forall>row \<in> set g'. \<forall>x \<in> set row. x \<noteq> None"
    by blast
  from assms(2) m g'(1) have "b' = b\<lparr>grid := g'\<rparr>"
    by (simp add: remove_and_collapse_def)
  with g'(2,3) show ?thesis by (simp add: full_board_def)
qed

lemma remove_and_collapse_total:
  assumes "wf_grid (rows b) (cols b) (grid b)"
    and "\<forall>p \<in> set coords. fst p < rows b \<and> snd p < cols b"
  shows "\<exists>k b' rnd'. remove_and_collapse b coords rnd = Inr (k, b', rnd')"
proof -
  from mark_fold_total [OF assms, of 0] obtain g1 k where
    m: "mark_removed (grid b) coords = Inr (g1, k)"
    by (auto simp: mark_removed_def)
  from mark_fold_wf [OF m [unfolded mark_removed_def] assms(1)]
  have wf1: "wf_grid (rows b) (cols b) g1" .
  from collapse_columns_full [OF wf1, of rnd] m show ?thesis
    by (auto simp: remove_and_collapse_def)
qed

lemma get_full:
  assumes "full_board b" "0 \<le> r" "r < int (rows b)" "0 \<le> c" "c < int (cols b)"
  shows "\<exists>t. get b r c = Inr (Some t)"
proof -
  from assms have rc: "nat r < rows b" "nat c < cols b" by simp_all
  from full_board_Some [OF assms(1) rc] obtain t where "grid b ! nat r ! nat c = Some t" ..
  moreover from assms(1) rc have "cell (grid b) (nat r) (nat c) = Inr (grid b ! nat r ! nat c)"
    by (intro cell_wf [of "rows b" "cols b"]) (simp_all add: full_board_def)
  ultimately show ?thesis using assms by (simp add: get_def)
qed

section \<open>The match test at one cell\<close>

declare count_down.simps [simp del] count_up.simps [simp del]

lemma count_up_spec:
  assumes "\<forall>k<n. ty k = Inr (f k)" "c \<le> n"
  shows "\<exists>e. count_up ty n t c cnt = Inr (cnt + (e - c)) \<and> c \<le> e \<and> e \<le> n
           \<and> (\<forall>k. c \<le> k \<and> k < e \<longrightarrow> f k = t) \<and> (e = n \<or> f e \<noteq> t)"
  using assms
proof (induction ty n t c cnt rule: count_up.induct)
  case (1 ty n t c cnt)
  show ?case
  proof (cases "c < n \<and> f c = t")
    case True
    then have tc: "ty c = Inr (f c)" using "1.prems" by simp
    from True have "c + 1 \<le> n" by simp
    from "1.IH" [OF _ tc _ "1.prems"(1) this] True obtain e where
      e: "count_up ty n t (c + 1) (cnt + 1) = Inr (cnt + 1 + (e - (c + 1)))" "c + 1 \<le> e" "e \<le> n"
         "\<forall>k. c + 1 \<le> k \<and> k < e \<longrightarrow> f k = t" "e = n \<or> f e \<noteq> t"
      by blast
    have "count_up ty n t c cnt = Inr (cnt + (e - c))"
      using True tc e(1,2) by (subst count_up.simps) simp
    moreover have "\<forall>k. c \<le> k \<and> k < e \<longrightarrow> f k = t"
    proof (intro allI impI)
      fix k assume "c \<le> k \<and> k < e"
      then have "k = c \<or> (c + 1 \<le> k \<and> k < e)" by linarith
      with e(4) True show "f k = t" by blast
    qed
    ultimately show ?thesis using e(2,3,5) by (intro exI [of _ e]) simp
  next
    case False
    have "count_up ty n t c cnt = Inr cnt"
    proof (cases "c < n")
      case True
      then have "ty c = Inr (f c)" using "1.prems" by simp
      with True False show ?thesis by (subst count_up.simps) simp
    next
      case False
      then show ?thesis by (subst count_up.simps) simp
    qed
    with False "1.prems"(2) show ?thesis by (intro exI [of _ c]) auto
  qed
qed

lemma count_down_spec:
  assumes "\<forall>k<n. ty k = Inr (f k)" "c \<le> n"
  shows "\<exists>s. count_down ty t (int c - 1) cnt = Inr (cnt + (c - s)) \<and> s \<le> c
           \<and> (\<forall>k. s \<le> k \<and> k < c \<longrightarrow> f k = t) \<and> (s = 0 \<or> f (s - 1) \<noteq> t)"
  using assms(2)
proof (induction c arbitrary: cnt)
  case 0
  have "count_down ty t (int 0 - 1) cnt = Inr cnt" by (subst count_down.simps) simp
  then show ?case by (intro exI [of _ 0]) simp
next
  case (Suc c)
  then have cn: "c < n" "c \<le> n" by simp_all
  then have tc: "ty c = Inr (f c)" using assms(1) by simp
  have idx: "int (Suc c) - 1 = int c" by simp
  show ?case
  proof (cases "f c = t")
    case True
    from Suc.IH [OF cn(2), of "cnt + 1"] obtain s where
      s: "count_down ty t (int c - 1) (cnt + 1) = Inr (cnt + 1 + (c - s))" "s \<le> c"
         "\<forall>k. s \<le> k \<and> k < c \<longrightarrow> f k = t" "s = 0 \<or> f (s - 1) \<noteq> t"
      by blast
    have "count_down ty t (int (Suc c) - 1) cnt = Inr (cnt + (Suc c - s))"
      unfolding idx using True tc s(1,2) by (subst count_down.simps) (simp add: Suc_diff_le)
    moreover have "\<forall>k. s \<le> k \<and> k < Suc c \<longrightarrow> f k = t"
    proof (intro allI impI)
      fix k assume "s \<le> k \<and> k < Suc c"
      then have "k = c \<or> (s \<le> k \<and> k < c)" by linarith
      with s(3) True show "f k = t" by blast
    qed
    ultimately show ?thesis using s(2,4) by (intro exI [of _ s]) simp
  next
    case False
    have "count_down ty t (int (Suc c) - 1) cnt = Inr cnt"
      unfolding idx using False tc by (subst count_down.simps) simp
    with False show ?thesis by (intro exI [of _ "Suc c"]) simp
  qed
qed

text \<open>
  A stretch of equal values around a position lies inside a maximal run; the counting loops
  compute its two ends.
\<close>

lemma run_around:
  assumes "c < n" and ty: "\<forall>k<n. ty k = Inr (f k)"
  shows "\<exists>s e cnt1. run_of f n s e \<and> s \<le> c \<and> c < e
           \<and> count_down ty (f c) (int c - 1) 1 = Inr cnt1
           \<and> count_up ty n (f c) (c + 1) cnt1 = Inr (e - s)"
proof -
  let ?ty = "\<lambda>k. Inr (f k) :: error + int"
  from assms have c1: "c \<le> n" "c + 1 \<le> n" by simp_all
  from count_down_spec [of n ?ty f c "f c" 1] c1 obtain s where
    s: "s \<le> c" "\<forall>k. s \<le> k \<and> k < c \<longrightarrow> f k = f c" "s = 0 \<or> f (s - 1) \<noteq> f c"
    by auto
  from count_up_spec [of n ?ty f "c + 1" "f c" 0] c1 obtain e where
    e: "c + 1 \<le> e" "e \<le> n" "\<forall>k. c + 1 \<le> k \<and> k < e \<longrightarrow> f k = f c" "e = n \<or> f e \<noteq> f c"
    by auto
  have eq: "f k = f c" if "s \<le> k" "k < e" for k
  proof -
    from that have "k = c \<or> (s \<le> k \<and> k < c) \<or> (c + 1 \<le> k \<and> k < e)" by linarith
    with s(2) e(3) show ?thesis by blast
  qed
  have fs: "f s = f c" using eq [of s] s(1) e(1) by simp
  have run: "run_of f n s e"
    unfolding run_of_def
  proof (intro conjI allI impI)
    show "s < e" using s(1) e(1) by simp
    show "e \<le> n" by (fact e(2))
    show "f k = f s" if "s \<le> k \<and> k < e" for k using eq [of k] that fs by simp
    show "s = 0 \<or> f (s - 1) \<noteq> f s" using s(3) fs by simp
    show "e = n \<or> f e \<noteq> f s" using e(4) fs by simp
  qed
  have cnt: "\<exists>cnt1. count_down ty (f c) (int c - 1) 1 = Inr cnt1
                \<and> count_up ty n (f c) (c + 1) cnt1 = Inr (e - s)"
  proof -
    from count_down_spec [OF ty c1(1), of "f c" 1] obtain s' where
      s': "count_down ty (f c) (int c - 1) 1 = Inr (1 + (c - s'))" "s' \<le> c"
          "\<forall>k. s' \<le> k \<and> k < c \<longrightarrow> f k = f c" "s' = 0 \<or> f (s' - 1) \<noteq> f c"
      by blast
    from count_up_spec [OF ty c1(2), of "f c" "1 + (c - s')"] obtain e' where
      e': "count_up ty n (f c) (c + 1) (1 + (c - s')) = Inr (1 + (c - s') + (e' - (c + 1)))"
          "c + 1 \<le> e'" "e' \<le> n"
          "\<forall>k. c + 1 \<le> k \<and> k < e' \<longrightarrow> f k = f c" "e' = n \<or> f e' \<noteq> f c"
      by blast
    have eq': "f k = f c" if "s' \<le> k" "k < e'" for k
    proof -
      from that have "k = c \<or> (s' \<le> k \<and> k < c) \<or> (c + 1 \<le> k \<and> k < e')" by linarith
      with s'(3) e'(4) show ?thesis by blast
    qed
    have fs': "f s' = f c" using eq' [of s'] s'(2) e'(2) by simp
    have run': "run_of f n s' e'"
      unfolding run_of_def
    proof (intro conjI allI impI)
      show "s' < e'" using s'(2) e'(2) by simp
      show "e' \<le> n" by (fact e'(3))
      show "f k = f s'" if "s' \<le> k \<and> k < e'" for k using eq' [of k] that fs' by simp
      show "s' = 0 \<or> f (s' - 1) \<noteq> f s'" using s'(4) fs' by simp
      show "e' = n \<or> f e' \<noteq> f s'" using e'(5) fs' by simp
    qed
    from run_of_unique [OF run run', of c] s(1) e(1) s'(2) e'(2) have "s' = s" "e' = e"
      by simp_all
    moreover have "1 + (c - s') + (e' - (c + 1)) = e' - s'" using s'(2) e'(2) by linarith
    ultimately show ?thesis using s'(1) e'(1) by simp
  qed
  from e(1) have "c < e" by simp
  with run s(1) cnt show ?thesis by blast
qed

lemma in_long_run_iff_run:
  assumes "run_of f n s e" "s \<le> c" "c < e"
  shows "in_long_run f n c \<longleftrightarrow> 3 \<le> e - s"
proof
  assume "in_long_run f n c"
  then obtain s' e' where r': "run_of f n s' e'" "s' \<le> c" "c < e'" "e' - s' \<ge> 3"
    unfolding in_long_run_def by blast
  from run_of_unique [OF assms(1) r'(1) assms(2,3) r'(2,3)] r'(4) show "3 \<le> e - s" by simp
next
  assume "3 \<le> e - s"
  with assms show "in_long_run f n c" unfolding in_long_run_def by blast
qed

lemma is_match_at_spec:
  assumes full: "full_board b" and r: "r < rows b" and c: "c < cols b"
  shows "is_match_at b r c = Inr (in_match b (r, c))"
proof -
  let ?h = "\<lambda>k. tile_type b r k" and ?v = "\<lambda>k. tile_type b k c"
  have th: "\<forall>k<cols b. type_at b r k = Inr (?h k)"
    using type_at_full [OF full r] by simp
  have tv: "\<forall>k<rows b. type_at b k c = Inr (?v k)"
    using type_at_full [OF full _ c] by simp
  from run_around [OF c th] obtain sh eh ch where
    h: "run_of ?h (cols b) sh eh" "sh \<le> c" "c < eh" and
    ch: "count_down (\<lambda>cc. type_at b r cc) (tile_type b r c) (int c - 1) 1 = Inr ch"
        "count_up (\<lambda>cc. type_at b r cc) (cols b) (tile_type b r c) (c + 1) ch = Inr (eh - sh)"
    by blast
  from run_around [OF r tv] obtain sv ev cv where
    v: "run_of ?v (rows b) sv ev" "sv \<le> r" "r < ev" and
    cv: "count_down (\<lambda>rr. type_at b rr c) (tile_type b r c) (int r - 1) 1 = Inr cv"
        "count_up (\<lambda>rr. type_at b rr c) (rows b) (tile_type b r c) (r + 1) cv = Inr (ev - sv)"
    by blast
  have "is_match_at b r c = Inr (3 \<le> eh - sh \<or> 3 \<le> ev - sv)"
    using type_at_full [OF full r c] ch cv by (simp add: is_match_at_def)
  moreover have "in_match b (r, c) \<longleftrightarrow> (3 \<le> eh - sh \<or> 3 \<le> ev - sv)"
    using in_long_run_iff_run [OF h(1,2,3)] in_long_run_iff_run [OF v(1,2,3)] r c
    by (simp add: in_match_def)
  ultimately show ?thesis by simp
qed

lemma in_long_run_segD:
  assumes "in_long_run f n k"
  shows "\<exists>s e. s \<le> k \<and> k < e \<and> e \<le> n \<and> 3 \<le> e - s \<and> (\<forall>i. s \<le> i \<and> i < e \<longrightarrow> f i = f k)"
proof -
  from assms obtain s e where r: "run_of f n s e" "s \<le> k" "k < e" "3 \<le> e - s"
    unfolding in_long_run_def by blast
  note d = run_ofD [OF r(1)]
  have "f k = f s" using d(3) [of k] r(2,3) by simp
  then have "\<forall>i. s \<le> i \<and> i < e \<longrightarrow> f i = f k" using d(3) by metis
  with r d(2) show ?thesis by blast
qed

lemma in_long_run_segI:
  assumes "s \<le> k" "k < e" "e \<le> n" "3 \<le> e - s" "\<forall>i. s \<le> i \<and> i < e \<longrightarrow> f i = f k"
  shows "in_long_run f n k"
proof -
  from assms(2,3) have "k < n" by linarith
  moreover have "\<forall>i<n. (Inr (f i) :: error + int) = Inr (f i)" by simp
  ultimately obtain s' e' where
    r: "run_of f n s' e'" "s' \<le> k" "k < e'"
    using run_around [of k n "\<lambda>i. Inr (f i)" f] by blast
  note d = run_ofD [OF r(1)]
  have fk: "f k = f s'" using d(3) [of k] r(2,3) by simp
  have "\<not> s < s'"
  proof
    assume lt: "s < s'"
    with r(2) assms(2) have "s \<le> s' - 1" "s' - 1 < e" by linarith+
    with assms(5) have "f (s' - 1) = f k" by blast
    moreover from d(4) lt have "f (s' - 1) \<noteq> f s'" by simp
    ultimately show False using fk by simp
  qed
  moreover have "\<not> e' < e"
  proof
    assume lt: "e' < e"
    with r(3) assms(1) have "s \<le> e'" by linarith
    with assms(5) lt have "f e' = f k" by blast
    moreover from d(5) d(2) assms(3) lt have "f e' \<noteq> f s'" by simp
    ultimately show False using fk by simp
  qed
  ultimately have "3 \<le> e' - s'" using assms(4) by linarith
  with r show ?thesis unfolding in_long_run_def by blast
qed

lemma long_run_change:
  assumes "\<forall>i. i \<noteq> p \<longrightarrow> f' i = f i" "in_long_run f' n q"
  shows "in_long_run f' n p \<or> in_long_run f n q"
proof -
  from in_long_run_segD [OF assms(2)] obtain s e where
    seg: "s \<le> q" "q < e" "e \<le> n" "3 \<le> e - s" "\<forall>i. s \<le> i \<and> i < e \<longrightarrow> f' i = f' q"
    by blast
  show ?thesis
  proof (cases "s \<le> p \<and> p < e")
    case True
    with seg(5) have "f' p = f' q" by blast
    with seg(5) have "\<forall>i. s \<le> i \<and> i < e \<longrightarrow> f' i = f' p" by metis
    from in_long_run_segI [OF _ _ seg(3,4) this] True show ?thesis by blast
  next
    case False
    have "f i = f q" if "s \<le> i \<and> i < e" for i
    proof -
      from that False have "i \<noteq> p" by blast
      moreover from seg(1,2) False have "q \<noteq> p" by blast
      ultimately have "f i = f' i" "f q = f' q" using assms(1) by metis+
      with seg(5) that show ?thesis by metis
    qed
    then have "\<forall>i. s \<le> i \<and> i < e \<longrightarrow> f i = f q" by blast
    from in_long_run_segI [OF seg(1,2,3,4) this] show ?thesis by blast
  qed
qed

lemma long_run_cong:
  assumes "\<forall>i<n. f' i = f i" "in_long_run f' n q"
  shows "in_long_run f n q"
proof -
  from in_long_run_segD [OF assms(2)] obtain s e where
    seg: "s \<le> q" "q < e" "e \<le> n" "3 \<le> e - s" "\<forall>i. s \<le> i \<and> i < e \<longrightarrow> f' i = f' q"
    by blast
  have "f i = f q" if "s \<le> i \<and> i < e" for i
  proof -
    from that seg have "i < n" "q < n" by linarith+
    with assms(1) have "f i = f' i" "f q = f' q" by metis+
    with seg(5) that show ?thesis by metis
  qed
  then have "\<forall>i. s \<le> i \<and> i < e \<longrightarrow> f i = f q" by blast
  from in_long_run_segI [OF seg(1,2,3,4) this] show ?thesis .
qed

text \<open>
  Changing one tile cannot bring a cell into a match unless the changed tile is in a match
  itself.
\<close>

lemma in_match_change:
  assumes dims: "rows b' = rows b" "cols b' = cols b"
    and same: "\<forall>i j. (i, j) \<noteq> (r0, c0) \<longrightarrow> tile_type b' i j = tile_type b i j"
    and m: "in_match b' q"
  shows "in_match b' (r0, c0) \<or> in_match b q"
proof -
  obtain r c where q: "q = (r, c)" by (cases q)
  from m q dims have rc: "r < rows b" "c < cols b" by (simp_all add: in_match_def)
  from m q consider
    (h) "in_long_run (\<lambda>k. tile_type b' r k) (cols b) c" |
    (v) "in_long_run (\<lambda>k. tile_type b' k c) (rows b) r"
    using dims by (auto simp: in_match_def)
  then show ?thesis
  proof cases
    case h
    show ?thesis
    proof (cases "r = r0")
      case True
      have "\<forall>i. i \<noteq> c0 \<longrightarrow> tile_type b' r i = tile_type b r i" using same True by simp
      from long_run_change [OF this h]
      have "in_long_run (\<lambda>k. tile_type b' r k) (cols b) c0
             \<or> in_long_run (\<lambda>k. tile_type b r k) (cols b) c" .
      then show ?thesis
      proof
        assume a: "in_long_run (\<lambda>k. tile_type b' r k) (cols b) c0"
        from in_long_run_less [OF a] a True rc dims have "in_match b' (r0, c0)"
          by (simp add: in_match_def)
        then show ?thesis ..
      next
        assume "in_long_run (\<lambda>k. tile_type b r k) (cols b) c"
        with rc q have "in_match b q" by (simp add: in_match_def)
        then show ?thesis ..
      qed
    next
      case False
      then have "\<forall>i<cols b. tile_type b' r i = tile_type b r i" using same by simp
      from long_run_cong [OF this h] rc q have "in_match b q" by (simp add: in_match_def)
      then show ?thesis ..
    qed
  next
    case v
    show ?thesis
    proof (cases "c = c0")
      case True
      have "\<forall>i. i \<noteq> r0 \<longrightarrow> tile_type b' i c = tile_type b i c" using same True by simp
      from long_run_change [OF this v]
      have "in_long_run (\<lambda>k. tile_type b' k c) (rows b) r0
             \<or> in_long_run (\<lambda>k. tile_type b k c) (rows b) r" .
      then show ?thesis
      proof
        assume a: "in_long_run (\<lambda>k. tile_type b' k c) (rows b) r0"
        from in_long_run_less [OF a] a True rc dims have "in_match b' (r0, c0)"
          by (simp add: in_match_def)
        then show ?thesis ..
      next
        assume "in_long_run (\<lambda>k. tile_type b k c) (rows b) r"
        with rc q have "in_match b q" by (simp add: in_match_def)
        then show ?thesis ..
      qed
    next
      case False
      then have "\<forall>i<rows b. tile_type b' i c = tile_type b i c" using same by simp
      from long_run_cong [OF this v] rc q have "in_match b q" by (simp add: in_match_def)
      then show ?thesis ..
    qed
  qed
qed

section \<open>The constructor leaves no match\<close>

lemma grid_update_other:
  "(i, j) \<noteq> (r, c) \<Longrightarrow> g[r := (g ! r)[c := v]] ! i ! j = g ! i ! j"
proof (cases "i = r")
  case False
  then show ?thesis by simp
next
  case True
  assume "(i, j) \<noteq> (r, c)"
  with True have jc: "j \<noteq> c" by simp
  show ?thesis
  proof (cases "r < length g")
    case True
    with \<open>i = r\<close> jc show ?thesis by simp
  next
    case False
    then have "g[r := (g ! r)[c := v]] = g" by (simp add: list_update_beyond)
    then show ?thesis by simp
  qed
qed

lemma full_board_set:
  assumes "full_board b"
  shows "full_board (b\<lparr>grid := (grid b)[r := (grid b ! r)[c := Some t]]\<rparr>)"
proof -
  let ?g = "grid b" and ?g' = "(grid b)[r := (grid b ! r)[c := Some t]]"
  from assms have wf: "wf_grid (rows b) (cols b) ?g" by (simp add: full_board_def)
  then have wf': "wf_grid (rows b) (cols b) ?g'" by (rule wf_grid_update)
  have "x \<noteq> None" if "row \<in> set ?g'" "x \<in> set row" for row x
  proof -
    from that obtain i j where i: "i < length ?g'" "row = ?g' ! i"
      and j: "j < length row" "x = row ! j"
      by (metis in_set_conv_nth)
    from i wf' have ir: "i < rows b" by (simp add: wf_grid_def)
    with i j wf' have jc: "j < cols b" by (simp add: wf_grid_def)
    from nth_grid_update [OF wf ir jc, of r c "Some t"] i j
    have "x = (if i = r \<and> j = c then Some t else ?g ! i ! j)" by simp
    with full_board_Some [OF assms ir jc] show ?thesis by auto
  qed
  with wf' show ?thesis by (simp add: full_board_def)
qed

definition reroll_post :: "Board \<Rightarrow> nat \<Rightarrow> nat \<Rightarrow> Board \<Rightarrow> bool" where
  "reroll_post b r c b' =
     (full_board b' \<and> rows b' = rows b \<and> cols b' = cols b
      \<and> (\<forall>i j. (i, j) \<noteq> (r, c) \<longrightarrow> tile_type b' i j = tile_type b i j)
      \<and> \<not> in_match b' (r, c))"

lemma reroll_cell_step:
  assumes IH: "\<And>b r c rnd y. reroll b r c rnd = Some y \<Longrightarrow>
            (\<forall>b' rnd'. y = Inr (b', rnd') \<longrightarrow> full_board b \<longrightarrow> r < rows b \<longrightarrow> c < cols b
               \<longrightarrow> reroll_post b r c b')"
    and body: "(case is_match_at b r c of
        Inl e \<Rightarrow> Some (Inl e)
      | Inr m \<Rightarrow>
          if m then
            (case random_choice TILE_TYPES rnd of
               (ty, rnd') \<Rightarrow>
                 (case set_cell (grid b) r c (Some (new_Tile ty)) of
                    Inl e \<Rightarrow> Some (Inl e)
                  | Inr g' \<Rightarrow> reroll (b\<lparr>grid := g'\<rparr>) r c rnd'))
          else Some (Inr (b, rnd))) = Some res"
    and res: "res = Inr (b', rnd')" and full: "full_board b"
    and r: "r < rows b" and c: "c < cols b"
  shows "reroll_post b r c b'"
proof (cases "in_match b (r, c)")
  case False
  with body is_match_at_spec [OF full r c] res have "b' = b" by simp
  with full False show ?thesis by (simp add: reroll_post_def)
next
  case True
  let ?t = "new_Tile (draw_type rnd 0)"
  let ?b1 = "b\<lparr>grid := (grid b)[r := (grid b ! r)[c := Some ?t]]\<rparr>"
  from full have wf: "wf_grid (rows b) (cols b) (grid b)" by (simp add: full_board_def)
  have "reroll ?b1 r c (advance rnd 1) = Some res"
    using body is_match_at_spec [OF full r c] True set_cell_wf [OF wf r c, of "Some ?t"]
    by (simp add: random_choice_TILE)
  from IH [OF this] res full_board_set [OF full, of r c ?t] r c
  have post: "reroll_post ?b1 r c b'" by simp
  have "tile_type b' i j = tile_type b i j" if "(i, j) \<noteq> (r, c)" for i j
  proof -
    from post that have "tile_type b' i j = tile_type ?b1 i j"
      unfolding reroll_post_def by blast
    also have "\<dots> = tile_type b i j"
      using grid_update_other [OF that, of "grid b" "Some ?t"] by (simp add: tile_type_def)
    finally show ?thesis .
  qed
  with post show ?thesis unfolding reroll_post_def by simp
qed

lemma reroll_cell_spec:
  assumes "reroll_cell b r c rnd = Some (Inr (b', rnd'))" "full_board b" "r < rows b" "c < cols b"
  shows "reroll_post b r c b'"
proof -
  have "\<forall>b'' rnd''. (Inr (b', rnd') :: error + Board \<times> rand) = Inr (b'', rnd'')
          \<longrightarrow> full_board b \<longrightarrow> r < rows b \<longrightarrow> c < cols b \<longrightarrow> reroll_post b r c b''"
    by (rule reroll_cell.raw_induct [where P = "\<lambda>b r c rnd res.
          \<forall>b' rnd'. res = Inr (b', rnd') \<longrightarrow> full_board b \<longrightarrow> r < rows b \<longrightarrow> c < cols b
             \<longrightarrow> reroll_post b r c b'", OF _ assms(1)])
       (intro allI impI, rule reroll_cell_step)
  with assms show ?thesis by blast
qed

lemma fold_opt_err_append:
  "fold_opt_err f (xs @ ys) s =
     (case fold_opt_err f xs s of
        None \<Rightarrow> None
      | Some (Inl e) \<Rightarrow> Some (Inl e)
      | Some (Inr s') \<Rightarrow> fold_opt_err f ys s')"
  by (induction xs arbitrary: s) (auto split: option.splits sum.splits)

lemma reroll_row:
  assumes "fold_opt_err (\<lambda>c (b, rnd). reroll_cell b r c rnd) [0..<j] (b, rnd)
             = Some (Inr (b', rnd'))"
    and "full_board b" "r < rows b" "j \<le> cols b" "\<forall>p. fst p < r \<longrightarrow> \<not> in_match b p"
  shows "full_board b' \<and> rows b' = rows b \<and> cols b' = cols b
           \<and> (\<forall>p. fst p < r \<or> (fst p = r \<and> snd p < j) \<longrightarrow> \<not> in_match b' p)"
  using assms(1,4)
proof (induction j arbitrary: b' rnd')
  case 0
  with assms(2,5) show ?case by simp
next
  case (Suc j)
  from Suc.prems(1) obtain b1 rnd1 where
    mid: "fold_opt_err (\<lambda>c (b, rnd). reroll_cell b r c rnd) [0..<j] (b, rnd)
            = Some (Inr (b1, rnd1))"
    and last: "reroll_cell b1 r j rnd1 = Some (Inr (b', rnd'))"
    by (auto simp: fold_opt_err_append split: option.splits sum.splits)
  from Suc.prems(2) have j: "j \<le> cols b" "j < cols b" by simp_all
  from Suc.IH [OF mid j(1)] have
    b1: "full_board b1" "rows b1 = rows b" "cols b1 = cols b"
        "\<forall>p. fst p < r \<or> (fst p = r \<and> snd p < j) \<longrightarrow> \<not> in_match b1 p"
    by simp_all
  from reroll_cell_spec [OF last b1(1)] b1(2,3) assms(3) j(2) have
    b': "full_board b'" "rows b' = rows b1" "cols b' = cols b1"
        "\<forall>i k. (i, k) \<noteq> (r, j) \<longrightarrow> tile_type b' i k = tile_type b1 i k"
        "\<not> in_match b' (r, j)"
    by (simp_all add: reroll_post_def)
  have "\<not> in_match b' p" if p: "fst p < r \<or> (fst p = r \<and> snd p < Suc j)" for p
  proof (cases "p = (r, j)")
    case True
    with b'(5) show ?thesis by simp
  next
    case False
    with p have "fst p < r \<or> (fst p = r \<and> snd p < j)" by (cases p) auto
    with b1(4) have old: "\<not> in_match b1 p" by blast
    show ?thesis
    proof
      assume "in_match b' p"
      from in_match_change [OF b'(2,3,4) this] b'(5) old show False by blast
    qed
  qed
  with b' b1 show ?case by simp
qed

lemma reroll_rows:
  assumes "fold_opt_err (\<lambda>r. fold_opt_err (\<lambda>c (b, rnd). reroll_cell b r c rnd) [0..<m]) [0..<i]
             (b, rnd) = Some (Inr (b', rnd'))"
    and "full_board b" "m = cols b" "i \<le> rows b"
  shows "full_board b' \<and> rows b' = rows b \<and> cols b' = cols b
           \<and> (\<forall>p. fst p < i \<longrightarrow> \<not> in_match b' p)"
  using assms(1,4)
proof (induction i arbitrary: b' rnd')
  case 0
  with assms(2) show ?case by simp
next
  case (Suc i)
  from Suc.prems(1) obtain b1 rnd1 where
    mid: "fold_opt_err (\<lambda>r. fold_opt_err (\<lambda>c (b, rnd). reroll_cell b r c rnd) [0..<m]) [0..<i]
            (b, rnd) = Some (Inr (b1, rnd1))"
    and last: "fold_opt_err (\<lambda>c (b, rnd). reroll_cell b i c rnd) [0..<m] (b1, rnd1)
            = Some (Inr (b', rnd'))"
    by (auto simp: fold_opt_err_append split: option.splits sum.splits)
  from Suc.prems(2) have i: "i \<le> rows b" "i < rows b" by simp_all
  from Suc.IH [OF mid i(1)] have
    b1: "full_board b1" "rows b1 = rows b" "cols b1 = cols b"
        "\<forall>p. fst p < i \<longrightarrow> \<not> in_match b1 p"
    by simp_all
  from reroll_row [OF last b1(1) _ _ b1(4)] b1(2,3) i(2) assms(3) have
    b': "full_board b'" "rows b' = rows b1" "cols b' = cols b1"
        "\<forall>p. fst p < i \<or> (fst p = i \<and> snd p < m) \<longrightarrow> \<not> in_match b' p"
    by simp_all
  have "\<not> in_match b' p" if "fst p < Suc i" for p
  proof (cases "fst p < i")
    case True
    with b'(4) show ?thesis by blast
  next
    case False
    with that have fp: "fst p = i" by simp
    show ?thesis
    proof (cases "snd p < m")
      case True
      with fp b'(4) show ?thesis by blast
    next
      case False
      with b'(3) b1(3) assms(3) show ?thesis by (cases p) (simp add: in_match_def)
    qed
  qed
  with b' b1 show ?case by simp
qed

lemma random_row_full:
  "random_row n rnd = (row, rnd') \<Longrightarrow> length row = n \<and> (\<forall>x \<in> set row. x \<noteq> None)"
proof (induction n arbitrary: rnd row rnd')
  case 0
  then show ?case by simp
next
  case (Suc n)
  then show ?case by (auto split: prod.splits)
qed

lemma random_grid_full:
  "random_grid k n rnd = (g, rnd')
    \<Longrightarrow> wf_grid k n g \<and> (\<forall>row \<in> set g. \<forall>x \<in> set row. x \<noteq> None)"
proof (induction k arbitrary: rnd g rnd')
  case 0
  then show ?case by (simp add: wf_grid_def)
next
  case (Suc k)
  from Suc.prems obtain row r1 g1 where
    row: "random_row n rnd = (row, r1)" and g1: "random_grid k n r1 = (g1, rnd')"
    and g: "g = row # g1"
    by (auto split: prod.splits)
  from random_row_full [OF row] Suc.IH [OF g1] g show ?case
    by (auto simp: wf_grid_def)
qed

lemma Board_init_clean:
  assumes "Board_init n m rnd = Some (Inr (b, rnd'))"
  shows "full_board b \<and> rows b = n \<and> cols b = m \<and> (\<forall>p. \<not> in_match b p)"
proof -
  obtain g r1 where g: "random_grid n m rnd = (g, r1)" by (cases "random_grid n m rnd")
  let ?b0 = "\<lparr>rows = n, cols = m, grid = g\<rparr>"
  from random_grid_full [OF g] have full0: "full_board ?b0" by (simp add: full_board_def)
  from assms g have run: "fold_opt_err
      (\<lambda>r. fold_opt_err (\<lambda>c (b, rnd). reroll_cell b r c rnd) [0..<m]) [0..<n] (?b0, r1)
        = Some (Inr (b, rnd'))"
    by (simp add: Board_init_def remove_initial_matches_def)
  from reroll_rows [OF run full0] have
    b: "full_board b" "rows b = n" "cols b = m" "\<forall>p. fst p < n \<longrightarrow> \<not> in_match b p"
    by simp_all
  have "\<not> in_match b p" for p
  proof (cases "fst p < n")
    case True
    with b(4) show ?thesis by blast
  next
    case False
    with b(2) show ?thesis by (cases p) (simp add: in_match_def)
  qed
  with b show ?thesis by blast
qed

lemma find_matches_clean:
  assumes "full_board b" "\<forall>p. \<not> in_match b p"
  shows "find_matches b = Inr []"
proof -
  from find_matches_exact [OF assms(1)] obtain ms where
    ms: "find_matches b = Inr ms" "set ms = {p. in_match b p}"
    by blast
  from ms(2) assms(2) have "set ms = {}" by simp
  with ms(1) show ?thesis by simp
qed

end
